theory Spec2Isabelle
  imports Complex_Main
begin

section \<open>Shared representations\<close>

text \<open>
  The learner (\<^verbatim>\<open>ImageLearner\<close>) and the solver (\<^verbatim>\<open>ConstraintSolver\<close>) are
  embedded function by function. JavaScript runtime failures are values of \<open>error\<close>:
  \<open>TypeError\<close> is a property read on \<^verbatim>\<open>undefined\<close>, the other two are the
  \<^verbatim>\<open>throw\<close> statements of \<^verbatim>\<open>observe\<close> and \<^verbatim>\<open>getShannonEntropy\<close>.
\<close>

datatype error = TypeError | PatternNotChosen | Contradiction

text \<open>
  Reading an array out of range gives \<^verbatim>\<open>undefined\<close> in JavaScript: \<open>None\<close> here.
\<close>

definition js_nth :: "'a list \<Rightarrow> int \<Rightarrow> 'a option" where
  "js_nth xs i = (if 0 \<le> i \<and> i < int (length xs) then Some (xs ! nat i) else None)"

subsection \<open>Bitmask\<close>

text \<open>
  Modelled from the spec: \<^verbatim>\<open>bitmask.js\<close> is imported by both classes and is not among
  the sources. Section 4.1 of the specification describes a fixed-size bitset over
  \<open>[0, P)\<close> with construct-empty, set, clear-all, enumerate-set-bits in ascending order,
  is-empty, clone, equals, AND and OR-into. A mask is the list of its \<open>P\<close> bits. Setting a
  bit outside the mask leaves it as it is.
\<close>

type_synonym Bitmask = "bool list"

definition newBitmask :: "nat \<Rightarrow> Bitmask" where
  "newBitmask n = replicate n False"

definition setBit :: "Bitmask \<Rightarrow> nat \<Rightarrow> Bitmask" where
  "setBit m i = m[i := True]"

definition clear :: "Bitmask \<Rightarrow> Bitmask" where
  "clear m = replicate (length m) False"

definition toArray :: "Bitmask \<Rightarrow> nat list" where
  "toArray m = filter (\<lambda>i. m ! i) [0..<length m]"

definition isEmpty :: "Bitmask \<Rightarrow> bool" where
  "isEmpty m = (toArray m = [])"

definition createCopy :: "Bitmask \<Rightarrow> Bitmask" where
  "createCopy m = m"

definition combineWith :: "Bitmask \<Rightarrow> Bitmask \<Rightarrow> Bitmask" where
  "combineWith self other =
     map (\<lambda>i. self ! i \<or> (i < length other \<and> other ! i)) [0..<length self]"

definition bitmask_AND :: "Bitmask \<Rightarrow> Bitmask \<Rightarrow> Bitmask" where
  "bitmask_AND a b = map (\<lambda>(p, q). p \<and> q) (zip a b)"

definition bitmask_EQUALS :: "Bitmask \<Rightarrow> Bitmask \<Rightarrow> bool" where
  "bitmask_EQUALS a b = (a = b)"

subsection \<open>Directions\<close>

text \<open>
  Modelled from the spec: \<^verbatim>\<open>directions.js\<close> is not among the sources. Section 4.3
  fixes the order up, down, left, right with offsets \<open>(dy, dx)\<close>; the comments of
  \<^verbatim>\<open>getAdjacencies\<close> and its \<^verbatim>\<open>oppositeDirIndex\<close> use the same order.
\<close>

definition DIRECTIONS :: "(int \<times> int) list" where
  "DIRECTIONS = [(-1, 0), (1, 0), (0, -1), (0, 1)]"

section \<open>The learner\<close>

text \<open>
  An image is a matrix of tile ids. A pattern is what \<^verbatim>\<open>getPattern\<close> builds: a
  matrix whose entries are tile ids or \<^verbatim>\<open>undefined\<close> (a read past the end of a
  short row).
\<close>

type_synonym image = "int list list"
type_synonym tile = "int option"
type_synonym pattern = "tile list list"

definition tileAt :: "int list \<Rightarrow> int \<Rightarrow> tile" where
  "tileAt row i = js_nth row i"

text \<open>
  \<^verbatim>\<open>getPattern(image, N, y, x)\<close>: the rows \<open>y .. y+N-1\<close>, each read at the columns
  \<open>x .. x+N-1\<close>. A missing row is a \<open>TypeError\<close>.
\<close>

fun getPattern_rows :: "image \<Rightarrow> int \<Rightarrow> int \<Rightarrow> int \<Rightarrow> nat list \<Rightarrow> error + pattern" where
  "getPattern_rows img N y x [] = Inr []"
| "getPattern_rows img N y x (ny # nys) =
     (case js_nth img (y + int ny) of
        None \<Rightarrow> Inl TypeError
      | Some row \<Rightarrow>
          (case getPattern_rows img N y x nys of
             Inl e \<Rightarrow> Inl e
           | Inr rest \<Rightarrow> Inr (map (\<lambda>nx. tileAt row (x + int nx)) [0..<nat N] # rest)))"

definition getPattern :: "image \<Rightarrow> int \<Rightarrow> int \<Rightarrow> int \<Rightarrow> error + pattern" where
  "getPattern img N y x = getPattern_rows img N y x [0..<nat N]"

text \<open>
  The state of \<^verbatim>\<open>getPatternsAndWeights\<close>: the two arrays of the learner and the
  local \<^verbatim>\<open>Map\<close>. Its key is \<^verbatim>\<open>p.toString()\<close>, the comma-separated row-major
  sequence of the entries of \<open>p\<close>: the flattened pattern.
\<close>

record learner_state =
  ls_patterns :: "pattern list"
  ls_weights :: "nat list"
  ls_uniquePatterns :: "tile list \<rightharpoonup> nat"

definition toString :: "pattern \<Rightarrow> tile list" where
  "toString p = concat p"

definition addPattern :: "pattern \<Rightarrow> learner_state \<Rightarrow> learner_state" where
  "addPattern p st =
     (case ls_uniquePatterns st (toString p) of
        Some i \<Rightarrow> st\<lparr>ls_weights := (ls_weights st)[i := ls_weights st ! i + 1]\<rparr>
      | None \<Rightarrow>
          st\<lparr>ls_patterns := ls_patterns st @ [p],
             ls_weights := ls_weights st @ [1],
             ls_uniquePatterns := (ls_uniquePatterns st)(toString p \<mapsto> length (ls_patterns st))\<rparr>)"

text \<open>The loop over \<open>x\<close>, the loop over \<open>y\<close> and the loop over the images.\<close>

fun scan_x :: "image \<Rightarrow> int \<Rightarrow> int \<Rightarrow> nat list \<Rightarrow> learner_state \<Rightarrow> error + learner_state" where
  "scan_x img N y [] st = Inr st"
| "scan_x img N y (x # xs) st =
     (case getPattern img N y (int x) of
        Inl e \<Rightarrow> Inl e
      | Inr p \<Rightarrow> scan_x img N y xs (addPattern p st))"

fun scan_y :: "image \<Rightarrow> int \<Rightarrow> nat list \<Rightarrow> learner_state \<Rightarrow> error + learner_state" where
  "scan_y img N [] st = Inr st"
| "scan_y img N (y # ys) st =
     (case js_nth img 0 of
        None \<Rightarrow> Inl TypeError
      | Some row0 \<Rightarrow>
          (case scan_x img N (int y) [0..<nat (int (length row0) - N + 1)] st of
             Inl e \<Rightarrow> Inl e
           | Inr st' \<Rightarrow> scan_y img N ys st'))"

fun scan_images :: "image list \<Rightarrow> int \<Rightarrow> learner_state \<Rightarrow> error + learner_state" where
  "scan_images [] N st = Inr st"
| "scan_images (img # images) N st =
     (case scan_y img N [0..<nat (int (length img) - N + 1)] st of
        Inl e \<Rightarrow> Inl e
      | Inr st' \<Rightarrow> scan_images images N st')"

definition getPatternsAndWeights :: "image list \<Rightarrow> int \<Rightarrow> error + learner_state" where
  "getPatternsAndWeights images N =
     scan_images images N \<lparr>ls_patterns = [], ls_weights = [], ls_uniquePatterns = Map.empty\<rparr>"

text \<open>
  \<^verbatim>\<open>isAdjacent(p1, p2, dir)\<close>. The two \<^verbatim>\<open>Map\<close>s \<^verbatim>\<open>start\<close> and \<^verbatim>\<open>end\<close> have the keys
  \<open>-1\<close>, \<open>1\<close> and \<open>0\<close>; for another key the bound is \<^verbatim>\<open>undefined\<close>, the loop condition
  is false and the loop body never runs.
\<close>

definition start_of :: "int \<Rightarrow> int option" where
  "start_of d = (if d = -1 then Some 1 else if d = 1 then Some 0 else if d = 0 then Some 0 else None)"

definition end_of :: "int \<Rightarrow> int option" where
  "end_of d = (if d = -1 then Some 0 else if d = 1 then Some (-1) else if d = 0 then Some 0 else None)"

definition loop_range :: "int option \<Rightarrow> int option \<Rightarrow> int list" where
  "loop_range s e = (case (s, e) of (Some a, Some b) \<Rightarrow> [a..b - 1] | _ \<Rightarrow> [])"

definition patternAt :: "pattern \<Rightarrow> int \<Rightarrow> int \<Rightarrow> error + tile" where
  "patternAt p y x =
     (case js_nth p y of
        None \<Rightarrow> Inl TypeError
      | Some row \<Rightarrow> Inr (case js_nth row x of None \<Rightarrow> None | Some t \<Rightarrow> t))"

fun isAdjacent_loop :: "pattern \<Rightarrow> pattern \<Rightarrow> int \<Rightarrow> int \<Rightarrow> (int \<times> int) list \<Rightarrow> error + bool" where
  "isAdjacent_loop p1 p2 dy dx [] = Inr True"
| "isAdjacent_loop p1 p2 dy dx ((y, x) # rest) =
     (case patternAt p1 y x of
        Inl e \<Rightarrow> Inl e
      | Inr tile1ID \<Rightarrow>
          (case patternAt p2 (y + dy) (x + dx) of
             Inl e \<Rightarrow> Inl e
           | Inr tile2ID \<Rightarrow>
               if tile1ID \<noteq> tile2ID then Inr False
               else isAdjacent_loop p1 p2 dy dx rest))"

definition isAdjacent :: "pattern \<Rightarrow> pattern \<Rightarrow> int \<times> int \<Rightarrow> error + bool" where
  "isAdjacent p1 p2 dir =
     (let dy = fst dir; dx = snd dir in
      case js_nth p1 0 of
        None \<Rightarrow> Inl TypeError
      | Some row0 \<Rightarrow>
          (let ys = loop_range (start_of dy) (map_option (\<lambda>e. int (length p1) + e) (end_of dy));
               xs = loop_range (start_of dx) (map_option (\<lambda>e. int (length row0) + e) (end_of dx))
           in isAdjacent_loop p1 p2 dy dx (concat (map (\<lambda>y. map (\<lambda>x. (y, x)) xs) ys))))"

text \<open>
  \<^verbatim>\<open>getAdjacencies\<close>: four empty masks per pattern, then the loops over
  \<open>i\<close>, over \<open>j\<close> from \<open>i + 1\<close> and over the direction index \<open>k\<close>.
\<close>

type_synonym adjacencies = "Bitmask list list"

definition oppositeDirIndex :: "nat \<Rightarrow> nat" where
  "oppositeDirIndex k = (if k = 0 then 1 else if k = 1 then 0 else if k = 2 then 3 else 2)"

definition setAdjacent :: "adjacencies \<Rightarrow> nat \<Rightarrow> nat \<Rightarrow> nat \<Rightarrow> adjacencies" where
  "setAdjacent A i k j = A[i := (A ! i)[k := setBit (A ! i ! k) j]]"

fun adj_k :: "pattern list \<Rightarrow> nat \<Rightarrow> nat \<Rightarrow> nat list \<Rightarrow> adjacencies \<Rightarrow> error + adjacencies" where
  "adj_k ps i j [] A = Inr A"
| "adj_k ps i j (k # ks) A =
     (case isAdjacent (ps ! i) (ps ! j) (DIRECTIONS ! k) of
        Inl e \<Rightarrow> Inl e
      | Inr True \<Rightarrow>
          adj_k ps i j ks (setAdjacent (setAdjacent A i k j) j (oppositeDirIndex k) i)
      | Inr False \<Rightarrow> adj_k ps i j ks A)"

fun adj_j :: "pattern list \<Rightarrow> nat \<Rightarrow> nat list \<Rightarrow> adjacencies \<Rightarrow> error + adjacencies" where
  "adj_j ps i [] A = Inr A"
| "adj_j ps i (j # js) A =
     (case adj_k ps i j [0..<length DIRECTIONS] A of
        Inl e \<Rightarrow> Inl e
      | Inr A' \<Rightarrow> adj_j ps i js A')"

fun adj_i :: "pattern list \<Rightarrow> nat list \<Rightarrow> adjacencies \<Rightarrow> error + adjacencies" where
  "adj_i ps [] A = Inr A"
| "adj_i ps (i # is) A =
     (case adj_j ps i [i + 1..<length ps] A of
        Inl e \<Rightarrow> Inl e
      | Inr A' \<Rightarrow> adj_i ps is A')"

definition getAdjacencies :: "pattern list \<Rightarrow> error + adjacencies" where
  "getAdjacencies ps =
     adj_i ps [0..<length ps] (replicate (length ps) (replicate 4 (newBitmask (length ps))))"

text \<open>\<^verbatim>\<open>learn(images, N)\<close>: the three fields of the learner after the call.\<close>

record model =
  model_patterns :: "pattern list"
  model_weights :: "nat list"
  model_adjacencies :: adjacencies

definition learn :: "image list \<Rightarrow> int \<Rightarrow> error + model" where
  "learn images N =
     (case getPatternsAndWeights images N of
        Inl e \<Rightarrow> Inl e
      | Inr st \<Rightarrow>
          (case getAdjacencies (ls_patterns st) of
             Inl e \<Rightarrow> Inl e
           | Inr A \<Rightarrow>
               Inr \<lparr>model_patterns = ls_patterns st, model_weights = ls_weights st,
                    model_adjacencies = A\<rparr>))"


section \<open>The solver\<close>

text \<open>
  The wave matrix is the array of rows of cell masks. A cell position is a pair \<open>(y, x)\<close>
  of integers, since \<^verbatim>\<open>propagate\<close> computes neighbours before it checks the bounds.
  Reading a cell that is not there gives \<^verbatim>\<open>undefined\<close>, and the method call on it
  is a \<open>TypeError\<close>.
\<close>

type_synonym wave = "Bitmask list list"

definition cellAt :: "wave \<Rightarrow> int \<Rightarrow> int \<Rightarrow> Bitmask option" where
  "cellAt w y x = (case js_nth w y of None \<Rightarrow> None | Some row \<Rightarrow> js_nth row x)"

definition setCell :: "wave \<Rightarrow> int \<Rightarrow> int \<Rightarrow> Bitmask \<Rightarrow> wave" where
  "setCell w y x m = w[nat y := (w ! nat y)[nat x := m]]"

definition initializeWaveMatrix :: "nat \<Rightarrow> nat \<Rightarrow> nat \<Rightarrow> wave" where
  "initializeWaveMatrix numPatterns width height =
     (let allPatternsPossible = fold (\<lambda>i m. setBit m i) [0..<numPatterns] (newBitmask numPatterns)
      in replicate height (replicate width (createCopy allPatternsPossible)))"

text \<open>
  \<^verbatim>\<open>observe(y, x, weights)\<close>. The value of \<^verbatim>\<open>Math.random()\<close> is the argument
  \<open>rnd\<close>. Weights are the learner's counts; a weight read past the end of \<open>weights\<close> is
  \<^verbatim>\<open>undefined\<close>, which makes \<^verbatim>\<open>totalWeight\<close> and \<^verbatim>\<open>random\<close> NaN, every comparison
  \<^verbatim>\<open>cursor >= random\<close> false, and the \<^verbatim>\<open>throw\<close> after the loop is reached. Numbers
  are exact reals: here \<^verbatim>\<open>random\<close> is the exact product \<open>rnd \<cdot> totalWeight\<close>, where the
  machine rounds the product to a double.
\<close>

fun lookupWeights :: "nat list \<Rightarrow> nat list \<Rightarrow> nat list option" where
  "lookupWeights weights [] = Some []"
| "lookupWeights weights (i # is) =
     (case js_nth weights (int i) of
        None \<Rightarrow> None
      | Some w \<Rightarrow> map_option ((#) w) (lookupWeights weights is))"

fun pick :: "real \<Rightarrow> real \<Rightarrow> (nat \<times> nat) list \<Rightarrow> nat option" where
  "pick random cursor [] = None"
| "pick random cursor ((p, w) # rest) =
     (if cursor + real w \<ge> random then Some p else pick random (cursor + real w) rest)"

definition observe :: "int \<Rightarrow> int \<Rightarrow> nat list \<Rightarrow> real \<Rightarrow> wave \<Rightarrow> error + wave" where
  "observe y x weights rnd w =
     (case cellAt w y x of
        None \<Rightarrow> Inl TypeError
      | Some cell \<Rightarrow>
          (let possiblePatterns = toArray cell in
           case lookupWeights weights possiblePatterns of
             None \<Rightarrow> Inl PatternNotChosen
           | Some possiblePatternWeights \<Rightarrow>
               (let totalWeight = sum_list possiblePatternWeights;
                    random = rnd * real totalWeight
                in case pick random 0 (zip possiblePatterns possiblePatternWeights) of
                     None \<Rightarrow> Inl PatternNotChosen
                   | Some p \<Rightarrow> Inr (setCell w y x (setBit (clear cell) p)))))"

text \<open>
  \<^verbatim>\<open>observe\<close> once more, now with the value of its variable \<^verbatim>\<open>random\<close> as the argument:
  the statements from \<^verbatim>\<open>let cursor = 0\<close> on, run with \<^verbatim>\<open>random\<close> equal to the given
  number, whatever floating-point value the product \<^verbatim>\<open>Math.random() * totalWeight\<close> had.
  The cursor sums the weights, which are counts: integers, whose sums a double holds
  exactly below \<open>2\<^sup>5\<^sup>3\<close>. With an
  \<^verbatim>\<open>undefined\<close> weight \<^verbatim>\<open>random\<close> is NaN and not a number, and the \<^verbatim>\<open>throw\<close> is reached.
\<close>

definition observe_with :: "int \<Rightarrow> int \<Rightarrow> nat list \<Rightarrow> real \<Rightarrow> wave \<Rightarrow> error + wave" where
  "observe_with y x weights random w =
     (case cellAt w y x of
        None \<Rightarrow> Inl TypeError
      | Some cell \<Rightarrow>
          (let possiblePatterns = toArray cell in
           case lookupWeights weights possiblePatterns of
             None \<Rightarrow> Inl PatternNotChosen
           | Some possiblePatternWeights \<Rightarrow>
               (case pick random 0 (zip possiblePatterns possiblePatternWeights) of
                  None \<Rightarrow> Inl PatternNotChosen
                | Some p \<Rightarrow> Inr (setCell w y x (setBit (clear cell) p)))))"

text \<open>
  Modelled from the spec: \<^verbatim>\<open>queue.js\<close> is not among the sources. Section 4.2 describes a
  first-in-first-out queue of coordinates: a list, with enqueue at the end and dequeue at
  the front.
\<close>

abbreviation (input) enqueue :: "'a list \<Rightarrow> 'a \<Rightarrow> 'a list" where
  "enqueue queue a \<equiv> queue @ [a]"

text \<open>
  \<^verbatim>\<open>propagate(y, x, adjacencies)\<close>. \<open>combineAdjacent\<close> is the loop that ORs the adjacency masks of
  the possible patterns of cell 1 into a fresh mask. \<open>propagate_dirs\<close> is the loop over
  the direction index \<open>k\<close>; its result is the flag \<^verbatim>\<open>contradictionCreated\<close> with the wave
  and the queue.
\<close>

fun combineAdjacent :: "adjacencies \<Rightarrow> nat \<Rightarrow> nat list \<Rightarrow> Bitmask \<Rightarrow> error + Bitmask" where
  "combineAdjacent A k [] acc = Inr acc"
| "combineAdjacent A k (i # is) acc =
     (case js_nth A (int i) of
        None \<Rightarrow> Inl TypeError
      | Some Ai \<Rightarrow>
          (case js_nth Ai (int k) of
             None \<Rightarrow> Inl TypeError
           | Some m \<Rightarrow> combineAdjacent A k is (combineWith acc m)))"

fun propagate_dirs ::
  "adjacencies \<Rightarrow> nat list \<Rightarrow> int \<Rightarrow> int \<Rightarrow> nat list \<Rightarrow> wave \<Rightarrow> (int \<times> int) list
     \<Rightarrow> error + bool \<times> wave \<times> (int \<times> int) list" where
  "propagate_dirs A cell1 y1 x1 [] w queue = Inr (False, w, queue)"
| "propagate_dirs A cell1 y1 x1 (k # ks) w queue =
     (let dir = DIRECTIONS ! k;
          dy = - fst dir;
          dx = - snd dir;
          y2 = y1 + dy;
          x2 = x1 + dx
      in if y2 < 0 \<or> y2 > int (length w) - 1 then propagate_dirs A cell1 y1 x1 ks w queue
         else if x2 < 0 \<or> x2 > int (length (w ! 0)) - 1 then propagate_dirs A cell1 y1 x1 ks w queue
         else
           (case cellAt w y2 x2 of
              None \<Rightarrow> Inl TypeError
            | Some cell2 \<Rightarrow>
                (case combineAdjacent A k cell1 (newBitmask (length A)) of
                   Inl e \<Rightarrow> Inl e
                 | Inr cell1_adjacent \<Rightarrow>
                     (let cell2_new = bitmask_AND cell2 cell1_adjacent in
                      if isEmpty cell2_new then Inr (True, w, queue)
                      else if \<not> bitmask_EQUALS cell2 cell2_new
                      then propagate_dirs A cell1 y1 x1 ks (setCell w y2 x2 cell2_new)
                             (enqueue queue (y2, x2))
                      else propagate_dirs A cell1 y1 x1 ks w queue))))"

partial_function (option) propagate_loop ::
  "adjacencies \<Rightarrow> (int \<times> int) list \<Rightarrow> wave \<Rightarrow> (error + bool \<times> wave) option" where
  "propagate_loop A queue w =
     (case queue of
        [] \<Rightarrow> Some (Inr (False, w))
      | (y1, x1) # rest \<Rightarrow>
          (case cellAt w y1 x1 of
             None \<Rightarrow> Some (Inl TypeError)
           | Some cell1 \<Rightarrow>
               (case propagate_dirs A (toArray cell1) y1 x1 [0..<length DIRECTIONS] w rest of
                  Inl e \<Rightarrow> Some (Inl e)
                | Inr (contradictionCreated, w', queue') \<Rightarrow>
                    if contradictionCreated then Some (Inr (True, w'))
                    else propagate_loop A queue' w')))"

definition propagate :: "int \<Rightarrow> int \<Rightarrow> adjacencies \<Rightarrow> wave \<Rightarrow> (error + bool \<times> wave) option" where
  "propagate y x A w = propagate_loop A [(y, x)] w"

text \<open>
  \<^verbatim>\<open>getShannonEntropy(bitmask, weights)\<close>. Its result is a JavaScript number:
  a real, NaN (a weight that is \<^verbatim>\<open>undefined\<close>, or \<open>0\<close>, for which
  \<^verbatim>\<open>w * Math.log(w)\<close> is NaN) or, for the initial value of \<^verbatim>\<open>leastEntropy\<close>,
  \<^verbatim>\<open>Infinity\<close>.
\<close>

datatype number = Number real | NaN | Infinity

fun num_less :: "number \<Rightarrow> number \<Rightarrow> bool" where
  "num_less (Number a) (Number b) = (a < b)"
| "num_less (Number a) Infinity = True"
| "num_less _ _ = False"

fun num_eq :: "number \<Rightarrow> number \<Rightarrow> bool" where
  "num_eq (Number a) (Number b) = (a = b)"
| "num_eq Infinity Infinity = True"
| "num_eq _ _ = False"

definition getShannonEntropy :: "Bitmask \<Rightarrow> nat list \<Rightarrow> error + number" where
  "getShannonEntropy bitmask weights =
     (let possiblePatterns = toArray bitmask in
      if length possiblePatterns = 0 then Inl Contradiction
      else if length possiblePatterns = 1 then Inr (Number 0)
      else
        (case lookupWeights weights possiblePatterns of
           None \<Rightarrow> Inr NaN
         | Some ws \<Rightarrow>
             if 0 \<in> set ws then Inr NaN
             else
               (let sumOfWeights = real (sum_list ws);
                    sumOfWeightLogWeights = (\<Sum>w\<leftarrow>ws. real w * ln (real w))
                in Inr (Number (ln sumOfWeights - sumOfWeightLogWeights / sumOfWeights)))))"

text \<open>
  \<^verbatim>\<open>getLeastEntropyUnsolvedCellPosition(weights)\<close>: \<open>scanEntropy\<close> is the double loop
  over the cells in row-major order, with \<^verbatim>\<open>leastEntropy\<close> and
  \<^verbatim>\<open>leastEntropyCellPositions\<close> as its state. \<^verbatim>\<open>Math.random()\<close> is called only when
  the list of positions is not empty.
\<close>

fun scanEntropy ::
  "nat list \<Rightarrow> wave \<Rightarrow> (int \<times> int) list \<Rightarrow> number \<Rightarrow> (int \<times> int) list
     \<Rightarrow> error + number \<times> (int \<times> int) list" where
  "scanEntropy weights w [] leastEntropy positions = Inr (leastEntropy, positions)"
| "scanEntropy weights w ((y, x) # cells) leastEntropy positions =
     (case cellAt w y x of
        None \<Rightarrow> Inl TypeError
      | Some cell \<Rightarrow>
          (case getShannonEntropy cell weights of
             Inl e \<Rightarrow> Inl e
           | Inr entropy \<Rightarrow>
               if num_less entropy leastEntropy \<and> num_less (Number 0) entropy
               then scanEntropy weights w cells entropy [(y, x)]
               else if num_eq entropy leastEntropy
               then scanEntropy weights w cells leastEntropy (positions @ [(y, x)])
               else scanEntropy weights w cells leastEntropy positions))"

definition randomIndex :: "real \<Rightarrow> nat \<Rightarrow> int" where
  "randomIndex rnd n = \<lfloor>rnd * real n\<rfloor>"

definition getLeastEntropyUnsolvedCellPosition ::
  "nat list \<Rightarrow> real \<Rightarrow> wave \<Rightarrow> error + int \<times> int" where
  "getLeastEntropyUnsolvedCellPosition weights rnd w =
     (let cells = concat (map (\<lambda>y. map (\<lambda>x. (int y, int x)) [0..<length (w ! 0)]) [0..<length w])
      in case scanEntropy weights w cells Infinity [] of
           Inl e \<Rightarrow> Inl e
         | Inr (leastEntropy, leastEntropyCellPositions) \<Rightarrow>
             (let len = length leastEntropyCellPositions in
              if len > 0
              then (case js_nth leastEntropyCellPositions (randomIndex rnd len) of
                      None \<Rightarrow> Inl TypeError
                    | Some pos \<Rightarrow> Inr pos)
              else Inr (-1, -1)))"

text \<open>
  \<^verbatim>\<open>solve\<close>. The calls of \<^verbatim>\<open>Math.random()\<close> are numbered: \<open>random n\<close> is the value of
  call number \<open>n\<close>, and the loop carries the number of the next call. The result is the
  returned boolean together with \<^verbatim>\<open>this.waveMatrix\<close>; \<open>None\<close> is a loop that never
  returns. The parameter \<^verbatim>\<open>setTiles\<close> is not read by the body of \<^verbatim>\<open>solve\<close>.
\<close>

type_synonym SetTileInstruction = "int \<times> int \<times> Bitmask"

partial_function (option) solve_loop ::
  "nat \<Rightarrow> nat list \<Rightarrow> adjacencies \<Rightarrow> nat \<Rightarrow> nat \<Rightarrow> int \<Rightarrow> (nat \<Rightarrow> real)
     \<Rightarrow> wave \<Rightarrow> int \<Rightarrow> int \<Rightarrow> int \<Rightarrow> nat \<Rightarrow> (error + bool \<times> wave) option" where
  "solve_loop numPatterns weights A width height maxAttempts random w y x numAttempts n =
     (if numAttempts \<le> maxAttempts then
        (case observe y x weights (random n) w of
           Inl e \<Rightarrow> Some (Inl e)
         | Inr w1 \<Rightarrow>
             (case propagate y x A w1 of
                None \<Rightarrow> None
              | Some (Inl e) \<Rightarrow> Some (Inl e)
              | Some (Inr (contradictionCreated, w2)) \<Rightarrow>
                  if contradictionCreated then
                    solve_loop numPatterns weights A width height maxAttempts random
                      (initializeWaveMatrix numPatterns width height)
                      (randomIndex (random (n + 1)) height)
                      (randomIndex (random (n + 2)) width)
                      (numAttempts + 1) (n + 3)
                  else
                    (case getLeastEntropyUnsolvedCellPosition weights (random (n + 1)) w2 of
                       Inl e \<Rightarrow> Some (Inl e)
                     | Inr (y', x') \<Rightarrow>
                         if y' = -1 \<and> x' = -1 then Some (Inr (True, w2))
                         else solve_loop numPatterns weights A width height maxAttempts random
                                w2 y' x' numAttempts (n + 2))))
      else Some (Inr (False, w)))"

definition solve ::
  "pattern list \<Rightarrow> nat list \<Rightarrow> adjacencies \<Rightarrow> SetTileInstruction list \<Rightarrow> nat \<Rightarrow> nat \<Rightarrow> int
     \<Rightarrow> (nat \<Rightarrow> real) \<Rightarrow> (error + bool \<times> wave) option" where
  "solve patterns weights adjacencies setTiles width height maxAttempts random =
     solve_loop (length patterns) weights adjacencies width height maxAttempts random
       (initializeWaveMatrix (length patterns) width height)
       (randomIndex (random 0) height) (randomIndex (random 1) width) 1 2"

section \<open>Invariants and measures used in the proofs\<close>

text \<open>Modelled from the spec: the operation test(i) of the bitmask of section 4.1, which
  \<^verbatim>\<open>bitmask.js\<close> (not among the sources) provides: whether bit \<open>i\<close> is set.\<close>

definition testBit :: "Bitmask \<Rightarrow> nat \<Rightarrow> bool" where
  "testBit m i = (i < length m \<and> m ! i)"

text \<open>The shape of the adjacency table of \<open>P\<close> patterns, and its symmetry as an invariant
  of the loops of \<^verbatim>\<open>getAdjacencies\<close>.\<close>

definition adj_shape :: "nat \<Rightarrow> adjacencies \<Rightarrow> bool" where
  "adj_shape P A = (length A = P \<and> (\<forall>i<P. length (A ! i) = 4 \<and> (\<forall>k<4. length (A ! i ! k) = P)))"

definition adj_sym :: "nat \<Rightarrow> adjacencies \<Rightarrow> bool" where
  "adj_sym P A = (\<forall>i<P. \<forall>j<P. \<forall>k<4. A ! i ! k ! j = A ! j ! oppositeDirIndex k ! i)"

text \<open>Invariants of the scan: the two arrays have the same length and the \<^verbatim>\<open>Map\<close> only
  holds indices into them; every pattern is an \<open>N \<times> N\<close> matrix. \<open>windows\<close> is the number
  of windows the loops visit in one image.\<close>

definition learner_inv :: "learner_state \<Rightarrow> bool" where
  "learner_inv st = (length (ls_patterns st) = length (ls_weights st)
      \<and> (\<forall>key i. ls_uniquePatterns st key = Some i \<longrightarrow> i < length (ls_weights st)))"

definition square :: "int \<Rightarrow> pattern \<Rightarrow> bool" where
  "square N p = (length p = nat N \<and> (\<forall>row\<in>set p. length row = nat N))"

definition windows :: "image \<Rightarrow> int \<Rightarrow> nat" where
  "windows img N = nat (int (length img) - N + 1) * nat (int (length (hd img)) - N + 1)"

text \<open>The valid inputs of section 4.4: a nonempty list of rectangular images, each at least
  \<open>N \<times> N\<close>, with \<open>N \<ge> 1\<close>.\<close>

definition valid_input :: "image list \<Rightarrow> int \<Rightarrow> bool" where
  "valid_input images N =
     (images \<noteq> [] \<and> 1 \<le> N \<and>
      (\<forall>img\<in>set images. N \<le> int (length img) \<and> N \<le> int (length (hd img))
         \<and> (\<forall>row\<in>set img. length row = length (hd img))))"

text \<open>An image smaller than \<open>N\<close> in one dimension: fewer than \<open>N\<close> rows, or a first row (the
  one whose length bounds the loop over \<open>x\<close>) shorter than \<open>N\<close>.\<close>

definition too_small :: "image \<Rightarrow> int \<Rightarrow> bool" where
  "too_small img N = (int (length img) < N \<or> (img \<noteq> [] \<and> int (length (hd img)) < N))"

text \<open>The state of the scan after \<open>k\<close> windows that all are the empty pattern.\<close>

definition counted :: "nat \<Rightarrow> learner_state" where
  "counted k =
     (if k = 0 then \<lparr>ls_patterns = [], ls_weights = [], ls_uniquePatterns = Map.empty\<rparr>
      else \<lparr>ls_patterns = [[]], ls_weights = [k], ls_uniquePatterns = [[] \<mapsto> 0]\<rparr>)"

text \<open>No pattern is recorded as adjacent to itself.\<close>

definition adj_irreflexive :: "nat \<Rightarrow> adjacencies \<Rightarrow> bool" where
  "adj_irreflexive P A = (\<forall>i<P. \<forall>k<4. \<not> A ! i ! k ! i)"

text \<open>The population of a mask, the measure that decreases when \<^verbatim>\<open>propagate\<close> replaces a
  mask, and the sum of a measure over the cells of a wave.\<close>

definition popCount :: "Bitmask \<Rightarrow> nat" where
  "popCount m = length (toArray m)"

definition mask_size :: "Bitmask \<Rightarrow> nat" where
  "mask_size m = length m + popCount m"

definition wsum :: "(Bitmask \<Rightarrow> nat) \<Rightarrow> wave \<Rightarrow> nat" where
  "wsum f w = sum_list (map (\<lambda>row. sum_list (map f row)) w)"

text \<open>The two bounds tests of \<^verbatim>\<open>propagate\<close>.\<close>

definition out_of_bounds :: "wave \<Rightarrow> int \<Rightarrow> int \<Rightarrow> bool" where
  "out_of_bounds w y2 x2 = (y2 < 0 \<or> y2 > int (length w) - 1 \<or> x2 < 0 \<or> x2 > int (length (w ! 0)) - 1)"

text \<open>No cell of the wave is contradictory.\<close>

definition all_nonempty :: "wave \<Rightarrow> bool" where
  "all_nonempty w = (\<forall>row\<in>set w. \<forall>cell\<in>set row. \<not> isEmpty cell)"

text \<open>\<open>cells_shrink w w'\<close>: \<open>w'\<close> has the shape of \<open>w\<close> and in every cell its possible
  patterns are among those of \<open>w\<close>.\<close>

definition cells_shrink :: "wave \<Rightarrow> wave \<Rightarrow> bool" where
  "cells_shrink w w' =
     (length w' = length w \<and>
      (\<forall>y<length w. length (w' ! y) = length (w ! y) \<and>
         (\<forall>x<length (w ! y). set (toArray (w' ! y ! x)) \<subseteq> set (toArray (w ! y ! x)))))"

text \<open>A cell that is there and has two or more possible patterns; an entropy that may be
  the tracked minimum.\<close>

definition unsolved :: "wave \<Rightarrow> int \<times> int \<Rightarrow> bool" where
  "unsolved w c = (case cellAt w (fst c) (snd c) of None \<Rightarrow> False | Some cell \<Rightarrow> 2 \<le> popCount cell)"

definition positive_or_infinite :: "number \<Rightarrow> bool" where
  "positive_or_infinite e = (case e of Number v \<Rightarrow> 0 < v | NaN \<Rightarrow> False | Infinity \<Rightarrow> True)"

text \<open>The second component of the termination measure of the loop of \<^verbatim>\<open>solve\<close>.\<close>

definition flag :: "wave \<Rightarrow> int \<Rightarrow> int \<Rightarrow> nat" where
  "flag w y x = (if unsolved w (y, x) then 0 else 1)"

text \<open>The running sum of section 4.6.1 at the member \<open>p\<close> of \<open>S\<close>: the weights of the
  members of \<open>S\<close> up to \<open>p\<close>.\<close>

definition cumulativeWeight :: "nat list \<Rightarrow> nat list \<Rightarrow> nat \<Rightarrow> nat" where
  "cumulativeWeight weights S p = (\<Sum>i\<leftarrow>filter (\<lambda>i. i \<le> p) S. weights ! i)"

text \<open>A source of randomness whose every draw is \<open>0\<close>.\<close>

definition zero_draws :: "nat \<Rightarrow> real" where
  "zero_draws n = 0"

text \<open>The order of the confluence proof: masks of one length, bit by bit; waves of one
  shape, cell by cell. A wave is well formed for \<open>P\<close> patterns when it is rectangular
  and every mask has \<open>P\<close> bits; an adjacency table is well formed when every pattern
  has its four masks, each as long as the table.\<close>

definition mask_le :: "Bitmask \<Rightarrow> Bitmask \<Rightarrow> bool" where
  "mask_le a b = (length a = length b \<and> (\<forall>i<length a. a ! i \<longrightarrow> b ! i))"

definition wave_le :: "wave \<Rightarrow> wave \<Rightarrow> bool" where
  "wave_le v w =
     (length v = length w \<and>
      (\<forall>y<length w. length (v ! y) = length (w ! y) \<and>
         (\<forall>x<length (w ! y). mask_le (v ! y ! x) (w ! y ! x))))"

definition wave_ok :: "nat \<Rightarrow> wave \<Rightarrow> bool" where
  "wave_ok P w = (\<forall>row\<in>set w. length row = length (w ! 0) \<and> (\<forall>cell\<in>set row. length cell = P))"

definition adj_ok :: "adjacencies \<Rightarrow> bool" where
  "adj_ok A = (\<forall>i<length A. \<forall>k<4. k < length (A ! i) \<and> length (A ! i ! k) = length A)"

text \<open>\<open>nbr c k\<close> is the cell that \<^verbatim>\<open>propagate\<close> revises from \<open>c\<close> for the direction index
  \<open>k\<close>; \<open>supports A cell k b\<close> says that pattern \<open>b\<close> is in the union of the adjacency
  masks \<open>A[i][k]\<close> of the possible patterns \<open>i\<close> of \<open>cell\<close>; a wave is closed at \<open>c\<close> when
  every neighbour of \<open>c\<close> only holds supported patterns.\<close>

definition cell_of :: "wave \<Rightarrow> int \<times> int \<Rightarrow> Bitmask option" where
  "cell_of w c = cellAt w (fst c) (snd c)"

definition nbr :: "int \<times> int \<Rightarrow> nat \<Rightarrow> int \<times> int" where
  "nbr c k = (fst c - fst (DIRECTIONS ! k), snd c - snd (DIRECTIONS ! k))"

definition supports :: "adjacencies \<Rightarrow> Bitmask \<Rightarrow> nat \<Rightarrow> nat \<Rightarrow> bool" where
  "supports A cell k b = (\<exists>i<length cell. cell ! i \<and> A ! i ! k ! b)"

definition closed_at :: "adjacencies \<Rightarrow> wave \<Rightarrow> int \<times> int \<Rightarrow> bool" where
  "closed_at A v c =
     (\<forall>vc. cell_of v c = Some vc \<longrightarrow>
        (\<forall>k<4. \<forall>n. cell_of v (nbr c k) = Some n \<longrightarrow> (\<forall>b<length n. n ! b \<longrightarrow> supports A vc k b)))"

text \<open>The arc-consistency sweep of section 4.6.2 with a free queue order, as the
  specification words it. One step takes any pending cell, revises its neighbours with
  the loop over the directions of \<^verbatim>\<open>propagate\<close>, which must not report a contradiction,
  and leaves pending the other cells and the enqueued ones, in any order and with any
  multiplicity.\<close>

inductive sweep_step :: "adjacencies \<Rightarrow> (int \<times> int) list \<times> wave \<Rightarrow> (int \<times> int) list \<times> wave \<Rightarrow> bool"
  for A :: adjacencies where
  visit: "cellAt w y1 x1 = Some cell1 \<Longrightarrow>
    propagate_dirs A (toArray cell1) y1 x1 [0..<length DIRECTIONS] w [] = Inr (False, w', enqueued) \<Longrightarrow>
    set pending' = set (before @ after) \<union> set enqueued \<Longrightarrow>
    sweep_step A (before @ (y1, x1) # after, w) (pending', w')"

text \<open>The invariant of a sweep from \<open>(Q0, w0)\<close>: the wave only shrank, a pending cell was
  pending at the start or has shrunk, and the wave is closed at every such cell that is
  no longer pending.\<close>

definition run_inv :: "adjacencies \<Rightarrow> (int \<times> int) list \<Rightarrow> wave \<Rightarrow> (int \<times> int) list \<times> wave \<Rightarrow> bool" where
  "run_inv A Q0 w0 s =
     (wave_le (snd s) w0 \<and>
      (\<forall>d\<in>set (fst s). d \<in> set Q0 \<or> cell_of (snd s) d \<noteq> cell_of w0 d) \<and>
      (\<forall>d. (d \<in> set Q0 \<or> cell_of (snd s) d \<noteq> cell_of w0 d) \<longrightarrow> d \<notin> set (fst s)
          \<longrightarrow> closed_at A (snd s) d))"

section \<open>Properties of the learner\<close>

lemma oppositeDirIndex_lt: "k < 4 \<Longrightarrow> oppositeDirIndex k < 4"
  by (simp add: oppositeDirIndex_def)

lemma oppositeDirIndex_invol: "k < 4 \<Longrightarrow> oppositeDirIndex (oppositeDirIndex k) = k"
  by (auto simp: oppositeDirIndex_def)

lemma setAdjacent_shape:
  "adj_shape P A \<Longrightarrow> adj_shape P (setAdjacent A i k j)"
proof -
  assume sh: "adj_shape P A"
  have "length (setAdjacent A i k j ! a) = 4 \<and> (\<forall>d<4. length (setAdjacent A i k j ! a ! d) = P)"
    if a: "a < P" for a
  proof (cases "a = i")
    case True
    from sh a have l4: "length (A ! a) = 4" and lP: "\<forall>d<4. length (A ! a ! d) = P"
      and la: "a < length A"
      by (simp_all add: adj_shape_def)
    show ?thesis
    proof (cases "k < 4")
      case k: True
      then show ?thesis using True l4 lP la unfolding setAdjacent_def setBit_def
        by (simp add: nth_list_update)
    next
      case k: False
      then show ?thesis using True l4 lP la unfolding setAdjacent_def setBit_def
        by (simp add: list_update_beyond)
    qed
  next
    case False
    then show ?thesis using sh a unfolding adj_shape_def setAdjacent_def setBit_def
      by simp
  qed
  moreover have "length (setAdjacent A i k j) = P"
    using sh by (simp add: adj_shape_def setAdjacent_def)
  ultimately show ?thesis unfolding adj_shape_def by blast
qed

lemma setAdjacent_nth:
  assumes "adj_shape P A" "a < P" "d < 4" "b < P"
  shows "setAdjacent A i k j ! a ! d ! b = (A ! a ! d ! b \<or> (a = i \<and> d = k \<and> b = j))"
proof -
  from assms have la: "length A = P" and lr: "length (A ! a) = 4" and lm: "length (A ! a ! d) = P"
    by (simp_all add: adj_shape_def)
  show ?thesis
    using assms(2-4) la lr lm unfolding setAdjacent_def setBit_def
    by (cases "a = i"; cases "d = k"; cases "b = j"; simp add: nth_list_update)
qed

lemma setAdjacent_pair_sym:
  assumes sh: "adj_shape P A" and sy: "adj_sym P A" and k: "k < 4"
  shows "adj_sym P (setAdjacent (setAdjacent A i k j) j (oppositeDirIndex k) i)"
proof -
  have sh1: "adj_shape P (setAdjacent A i k j)" using sh by (rule setAdjacent_shape)
  show ?thesis
    unfolding adj_sym_def
  proof (intro allI impI)
    fix a b :: nat and d :: nat assume a: "a < P" and b: "b < P" and d: "d < 4"
    have od: "oppositeDirIndex d < 4" using d by (rule oppositeDirIndex_lt)
    have e1: "(oppositeDirIndex d = k) = (d = oppositeDirIndex k)"
      using d k by (auto simp: oppositeDirIndex_def)
    have e2: "(oppositeDirIndex d = oppositeDirIndex k) = (d = k)"
      using d k by (auto simp: oppositeDirIndex_def)
    have "A ! a ! d ! b = A ! b ! oppositeDirIndex d ! a"
      using sy a b d by (simp add: adj_sym_def)
    then show "setAdjacent (setAdjacent A i k j) j (oppositeDirIndex k) i ! a ! d ! b =
          setAdjacent (setAdjacent A i k j) j (oppositeDirIndex k) i ! b ! oppositeDirIndex d ! a"
      using setAdjacent_nth[OF sh1 a d b] setAdjacent_nth[OF sh a d b]
        setAdjacent_nth[OF sh1 b od a] setAdjacent_nth[OF sh b od a] e1 e2
      by auto
  qed
qed

lemma adj_k_inv:
  "adj_k ps i j ks A = Inr A' \<Longrightarrow> \<forall>k\<in>set ks. k < 4 \<Longrightarrow> adj_shape P A \<Longrightarrow> adj_sym P A
   \<Longrightarrow> adj_shape P A' \<and> adj_sym P A'"
proof (induction ks arbitrary: A)
  case Nil
  then show ?case by simp
next
  case (Cons k ks)
  from Cons.prems(2) have k: "k < 4" and ks: "\<forall>k\<in>set ks. k < 4" by simp_all
  show ?case
  proof (cases "isAdjacent (ps ! i) (ps ! j) (DIRECTIONS ! k)")
    case (Inl e)
    with Cons.prems(1) show ?thesis by simp
  next
    case (Inr b)
    show ?thesis
    proof (cases b)
      case True
      let ?B = "setAdjacent (setAdjacent A i k j) j (oppositeDirIndex k) i"
      from Cons.prems(1) Inr True have run: "adj_k ps i j ks ?B = Inr A'" by simp
      have "adj_shape P ?B" using Cons.prems(3) by (intro setAdjacent_shape)
      moreover have "adj_sym P ?B" using Cons.prems(3,4) k by (rule setAdjacent_pair_sym)
      ultimately show ?thesis using Cons.IH[OF run ks] by blast
    next
      case False
      with Cons.prems(1) Inr have "adj_k ps i j ks A = Inr A'" by simp
      then show ?thesis using Cons.IH ks Cons.prems(3,4) by blast
    qed
  qed
qed

lemma adj_j_inv:
  "adj_j ps i js A = Inr A' \<Longrightarrow> adj_shape P A \<Longrightarrow> adj_sym P A
   \<Longrightarrow> adj_shape P A' \<and> adj_sym P A'"
proof (induction js arbitrary: A)
  case Nil
  then show ?case by simp
next
  case (Cons j js)
  then obtain B where B: "adj_k ps i j [0..<length DIRECTIONS] A = Inr B"
    and run: "adj_j ps i js B = Inr A'"
    by (auto split: sum.splits)
  have "\<forall>k\<in>set [0..<length DIRECTIONS]. k < 4" by (simp add: DIRECTIONS_def)
  from adj_k_inv[OF B this Cons.prems(2,3)] Cons.IH[OF run] show ?case by blast
qed

lemma adj_i_inv:
  "adj_i ps is A = Inr A' \<Longrightarrow> adj_shape P A \<Longrightarrow> adj_sym P A
   \<Longrightarrow> adj_shape P A' \<and> adj_sym P A'"
proof (induction "is" arbitrary: A)
  case Nil
  then show ?case by simp
next
  case (Cons i "is")
  then obtain B where B: "adj_j ps i [i + 1..<length ps] A = Inr B"
    and run: "adj_i ps is B = Inr A'"
    by (auto split: sum.splits)
  from adj_j_inv[OF B Cons.prems(2,3)] Cons.IH[OF run] show ?case by blast
qed

lemma getAdjacencies_inv:
  assumes "getAdjacencies ps = Inr A"
  shows "adj_shape (length ps) A \<and> adj_sym (length ps) A"
proof -
  let ?A0 = "replicate (length ps) (replicate 4 (newBitmask (length ps)))"
  have "adj_shape (length ps) ?A0" by (simp add: adj_shape_def newBitmask_def)
  moreover have "adj_sym (length ps) ?A0"
    by (simp add: adj_sym_def newBitmask_def oppositeDirIndex_lt)
  ultimately show ?thesis using assms adj_i_inv unfolding getAdjacencies_def by blast
qed

lemma learn_adjacencies:
  "learn images N = Inr m \<Longrightarrow> getAdjacencies (model_patterns m) = Inr (model_adjacencies m)"
  by (auto simp: learn_def split: sum.splits)

text \<open>
  Claim C6. For every learned model and all pattern indices \<open>i\<close>, \<open>j\<close>: bit \<open>j\<close> of
  \<open>A[i][up]\<close> is set iff bit \<open>i\<close> of \<open>A[j][down]\<close> is set, and bit \<open>j\<close> of \<open>A[i][left]\<close>
  is set iff bit \<open>i\<close> of \<open>A[j][right]\<close> is set (direction indices 0, 1, 2, 3).
\<close>

theorem adjacency_symmetric:
  assumes "learn images N = Inr m"
    and "i < length (model_patterns m)" and "j < length (model_patterns m)"
  shows "(testBit (model_adjacencies m ! i ! 0) j \<longleftrightarrow> testBit (model_adjacencies m ! j ! 1) i)
       \<and> (testBit (model_adjacencies m ! i ! 2) j \<longleftrightarrow> testBit (model_adjacencies m ! j ! 3) i)"
proof -
  let ?A = "model_adjacencies m" and ?P = "length (model_patterns m)"
  from learn_adjacencies[OF assms(1)] have inv: "adj_shape ?P ?A" "adj_sym ?P ?A"
    using getAdjacencies_inv by blast+
  have len: "\<And>a k. a < ?P \<Longrightarrow> k < 4 \<Longrightarrow> length (?A ! a ! k) = ?P"
    using inv(1) by (simp add: adj_shape_def)
  have "?A ! i ! 0 ! j = ?A ! j ! oppositeDirIndex 0 ! i" "?A ! i ! 2 ! j = ?A ! j ! oppositeDirIndex 2 ! i"
    using inv(2) assms(2,3) by (simp_all add: adj_sym_def)
  then show ?thesis
    using len[of i 0] len[of j 1] len[of i 2] len[of j 3] assms(2,3)
    by (simp add: testBit_def oppositeDirIndex_def)
qed

lemma getPattern_rows_shape:
  "getPattern_rows img N y x nys = Inr p \<Longrightarrow> length p = length nys \<and> (\<forall>row\<in>set p. length row = nat N)"
  by (induction nys arbitrary: p) (auto split: option.splits sum.splits)

lemma getPattern_square: "getPattern img N y x = Inr p \<Longrightarrow> square N p"
  using getPattern_rows_shape[of img N y x "[0..<nat N]" p] by (simp add: getPattern_def square_def)

lemma getPattern_rows_ok:
  "0 \<le> y \<Longrightarrow> \<forall>ny\<in>set nys. y + int ny < int (length img) \<Longrightarrow> \<exists>p. getPattern_rows img N y x nys = Inr p"
  by (induction nys) (auto simp: js_nth_def)

lemma getPattern_ok:
  "0 \<le> y \<Longrightarrow> y + N \<le> int (length img) \<Longrightarrow> \<exists>p. getPattern img N y x = Inr p"
  unfolding getPattern_def by (rule getPattern_rows_ok) auto

lemma addPattern_inv: "learner_inv st \<Longrightarrow> learner_inv (addPattern p st)"
  by (auto simp: learner_inv_def addPattern_def less_Suc_eq split: option.splits)

lemma addPattern_sum:
  "learner_inv st \<Longrightarrow> sum_list (ls_weights (addPattern p st)) = sum_list (ls_weights st) + 1"
  by (auto simp: learner_inv_def addPattern_def sum_list_update split: option.splits)

lemma addPattern_square:
  "square N p \<Longrightarrow> \<forall>q\<in>set (ls_patterns st). square N q \<Longrightarrow> \<forall>q\<in>set (ls_patterns (addPattern p st)). square N q"
  by (auto simp: addPattern_def split: option.splits)

lemma scan_x_inv:
  "scan_x img N y xs st = Inr st' \<Longrightarrow> learner_inv st \<Longrightarrow>
   learner_inv st' \<and> sum_list (ls_weights st') = sum_list (ls_weights st) + length xs"
proof (induction xs arbitrary: st)
  case Nil
  then show ?case by simp
next
  case (Cons x xs)
  then obtain p where run: "scan_x img N y xs (addPattern p st) = Inr st'"
    by (auto split: sum.splits)
  from Cons.IH[OF run addPattern_inv[OF Cons.prems(2)]] addPattern_sum[OF Cons.prems(2), of p]
  show ?case by simp
qed

lemma scan_x_square:
  "scan_x img N y xs st = Inr st' \<Longrightarrow> \<forall>q\<in>set (ls_patterns st). square N q \<Longrightarrow>
   \<forall>q\<in>set (ls_patterns st'). square N q"
proof (induction xs arbitrary: st)
  case Nil
  then show ?case by simp
next
  case (Cons x xs)
  then obtain p where p: "getPattern img N y (int x) = Inr p"
    and run: "scan_x img N y xs (addPattern p st) = Inr st'"
    by (auto split: sum.splits)
  from Cons.IH[OF run addPattern_square[OF getPattern_square[OF p] Cons.prems(2)]]
  show ?case .
qed

lemma scan_x_ok:
  "0 \<le> y \<Longrightarrow> y + N \<le> int (length img) \<Longrightarrow> \<exists>st'. scan_x img N y xs st = Inr st'"
proof (induction xs arbitrary: st)
  case Nil
  then show ?case by simp
next
  case (Cons x xs)
  from getPattern_ok[OF Cons.prems, of "int x"] obtain p where "getPattern img N y (int x) = Inr p" ..
  then show ?case using Cons.IH[OF Cons.prems] by simp
qed

lemma scan_y_inv:
  "scan_y img N ys st = Inr st' \<Longrightarrow> learner_inv st \<Longrightarrow>
   learner_inv st' \<and> sum_list (ls_weights st') =
     sum_list (ls_weights st) + length ys * nat (int (length (hd img)) - N + 1)"
proof (induction ys arbitrary: st)
  case Nil
  then show ?case by simp
next
  case (Cons y ys)
  then obtain row0 st1 where r: "js_nth img 0 = Some row0"
    and sx: "scan_x img N (int y) [0..<nat (int (length row0) - N + 1)] st = Inr st1"
    and run: "scan_y img N ys st1 = Inr st'"
    by (auto split: sum.splits option.splits)
  from r have hd: "row0 = hd img" by (cases img) (auto simp: js_nth_def)
  from scan_x_inv[OF sx Cons.prems(2)] Cons.IH[OF run] hd show ?case by simp
qed

lemma scan_y_square:
  "scan_y img N ys st = Inr st' \<Longrightarrow> \<forall>q\<in>set (ls_patterns st). square N q \<Longrightarrow>
   \<forall>q\<in>set (ls_patterns st'). square N q"
proof (induction ys arbitrary: st)
  case Nil
  then show ?case by simp
next
  case (Cons y ys)
  from Cons.prems(1) obtain row0 :: "int list" and st1 where
    sx: "scan_x img N (int y) [0..<nat (int (length row0) - N + 1)] st = Inr st1"
    and run: "scan_y img N ys st1 = Inr st'"
    by (auto split: sum.splits option.splits)
  from Cons.IH[OF run scan_x_square[OF sx Cons.prems(2)]] show ?case .
qed

lemma scan_y_ok:
  "img \<noteq> [] \<Longrightarrow> \<forall>y\<in>set ys. int y + N \<le> int (length img) \<Longrightarrow> \<exists>st'. scan_y img N ys st = Inr st'"
proof (induction ys arbitrary: st)
  case Nil
  then show ?case by simp
next
  case (Cons y ys)
  from Cons.prems(1) obtain row0 where r: "js_nth img 0 = Some row0" by (cases img) (auto simp: js_nth_def)
  from Cons.prems(2) have "int y + N \<le> int (length img)" by simp
  from scan_x_ok[OF _ this] obtain st1 where
    "scan_x img N (int y) [0..<nat (int (length row0) - N + 1)] st = Inr st1" by fastforce
  then show ?case using r Cons.IH[OF Cons.prems(1), of st1] Cons.prems(2) by simp
qed

lemma scan_images_inv:
  "scan_images images N st = Inr st' \<Longrightarrow> learner_inv st \<Longrightarrow>
   learner_inv st' \<and> sum_list (ls_weights st') =
     sum_list (ls_weights st) + (\<Sum>img\<leftarrow>images. windows img N)"
proof (induction images arbitrary: st)
  case Nil
  then show ?case by simp
next
  case (Cons img images)
  then obtain st1 where sy: "scan_y img N [0..<nat (int (length img) - N + 1)] st = Inr st1"
    and run: "scan_images images N st1 = Inr st'"
    by (auto split: sum.splits)
  from scan_y_inv[OF sy Cons.prems(2)] Cons.IH[OF run] show ?case by (simp add: windows_def)
qed

lemma scan_images_square:
  "scan_images images N st = Inr st' \<Longrightarrow> \<forall>q\<in>set (ls_patterns st). square N q \<Longrightarrow>
   \<forall>q\<in>set (ls_patterns st'). square N q"
proof (induction images arbitrary: st)
  case Nil
  then show ?case by simp
next
  case (Cons img images)
  then obtain st1 where sy: "scan_y img N [0..<nat (int (length img) - N + 1)] st = Inr st1"
    and run: "scan_images images N st1 = Inr st'"
    by (auto split: sum.splits)
  from Cons.IH[OF run scan_y_square[OF sy Cons.prems(2)]] show ?case .
qed

lemma scan_images_ok:
  "\<forall>img\<in>set images. img \<noteq> [] \<Longrightarrow> \<exists>st'. scan_images images N st = Inr st'"
proof (induction images arbitrary: st)
  case Nil
  then show ?case by simp
next
  case (Cons img images)
  have "\<forall>y\<in>set [0..<nat (int (length img) - N + 1)]. int y + N \<le> int (length img)" by auto
  from scan_y_ok[OF _ this] Cons.prems obtain st1 where
    "scan_y img N [0..<nat (int (length img) - N + 1)] st = Inr st1" by fastforce
  then show ?case using Cons.IH[of st1] Cons.prems by simp
qed

lemma isAdjacent_loop_ok:
  "\<forall>(y, x)\<in>set cells. 0 \<le> y \<and> y < int (length p1) \<and> 0 \<le> y + dy \<and> y + dy < int (length p2)
   \<Longrightarrow> \<exists>b. isAdjacent_loop p1 p2 dy dx cells = Inr b"
proof (induction cells)
  case Nil
  show ?case by (rule exI[of _ True]) simp
next
  case (Cons c cells)
  obtain y x where c: "c = (y, x)" by (cases c)
  from Cons.prems c obtain t1 t2 where t: "patternAt p1 y x = Inr t1" "patternAt p2 (y + dy) (x + dx) = Inr t2"
    by (auto simp: patternAt_def js_nth_def)
  from Cons have IH: "\<exists>b. isAdjacent_loop p1 p2 dy dx cells = Inr b" by simp
  show ?case
  proof (cases "t1 = t2")
    case True
    then show ?thesis using t c IH by simp
  next
    case False
    show ?thesis by (rule exI[of _ False]) (use False t c in simp)
  qed
qed

lemma isAdjacent_ok:
  assumes "square N p1" "square N p2" "1 \<le> N" "dir \<in> set DIRECTIONS"
  shows "\<exists>b. isAdjacent p1 p2 dir = Inr b"
proof -
  from assms(1,2) have len: "length p1 = nat N" "length p2 = nat N" by (simp_all add: square_def)
  with assms(3) have "p1 \<noteq> []" by auto
  then obtain row0 where r: "js_nth p1 0 = Some row0"
    by (simp add: js_nth_def)
  let ?ys = "loop_range (start_of (fst dir)) (map_option (\<lambda>e. int (length p1) + e) (end_of (fst dir)))"
  have ys: "\<forall>y\<in>set ?ys. 0 \<le> y \<and> y < int (length p1) \<and> 0 \<le> y + fst dir \<and> y + fst dir < int (length p2)"
    using assms(3,4) len by (auto simp: DIRECTIONS_def loop_range_def start_of_def end_of_def)
  let ?xs = "loop_range (start_of (snd dir)) (map_option (\<lambda>e. int (length row0) + e) (end_of (snd dir)))"
  let ?cells = "concat (map (\<lambda>y. map (\<lambda>x. (y, x)) ?xs) ?ys)"
  have "\<forall>(y, x)\<in>set ?cells. 0 \<le> y \<and> y < int (length p1) \<and> 0 \<le> y + fst dir \<and> y + fst dir < int (length p2)"
    using ys by fastforce
  from isAdjacent_loop_ok[OF this] obtain b where
    "isAdjacent_loop p1 p2 (fst dir) (snd dir) ?cells = Inr b" ..
  then show ?thesis
    unfolding isAdjacent_def Let_def using r by simp
qed

lemma adj_k_ok:
  assumes "square N (ps ! i)" "square N (ps ! j)" "1 \<le> N"
  shows "\<forall>k\<in>set ks. k < 4 \<Longrightarrow> \<exists>A'. adj_k ps i j ks A = Inr A'"
proof (induction ks arbitrary: A)
  case Nil
  then show ?case by simp
next
  case (Cons k ks)
  then have "k < length DIRECTIONS" by (simp add: DIRECTIONS_def)
  then have "DIRECTIONS ! k \<in> set DIRECTIONS" by (rule nth_mem)
  from isAdjacent_ok[OF assms this] obtain b where "isAdjacent (ps ! i) (ps ! j) (DIRECTIONS ! k) = Inr b" ..
  then show ?case using Cons by (cases b) simp_all
qed

lemma adj_j_ok:
  assumes "\<forall>q\<in>set ps. square N q" "1 \<le> N" "i < length ps"
  shows "\<forall>j\<in>set js. j < length ps \<Longrightarrow> \<exists>A'. adj_j ps i js A = Inr A'"
proof (induction js arbitrary: A)
  case Nil
  then show ?case by simp
next
  case (Cons j js)
  have "\<forall>k\<in>set [0..<length DIRECTIONS]. k < 4" by (simp add: DIRECTIONS_def)
  from adj_k_ok[OF _ _ assms(2) this, where ps = ps and i = i and j = j and A = A] assms(1,3) Cons.prems
  obtain B where "adj_k ps i j [0..<length DIRECTIONS] A = Inr B" by auto
  then show ?case using Cons by simp
qed

lemma adj_i_ok:
  assumes "\<forall>q\<in>set ps. square N q" "1 \<le> N"
  shows "\<forall>i\<in>set is. i < length ps \<Longrightarrow> \<exists>A'. adj_i ps is A = Inr A'"
proof (induction "is" arbitrary: A)
  case Nil
  then show ?case by simp
next
  case (Cons i "is")
  have "\<forall>j\<in>set [i + 1..<length ps]. j < length ps" by simp
  from adj_j_ok[OF assms _ this, where A = A] Cons.prems
  obtain B where "adj_j ps i [i + 1..<length ps] A = Inr B" by auto
  then show ?case using Cons by simp
qed

lemma getAdjacencies_ok:
  "\<forall>q\<in>set ps. square N q \<Longrightarrow> 1 \<le> N \<Longrightarrow> \<exists>A. getAdjacencies ps = Inr A"
  unfolding getAdjacencies_def by (rule adj_i_ok) auto

lemma learner_inv_init: "learner_inv \<lparr>ls_patterns = [], ls_weights = [], ls_uniquePatterns = Map.empty\<rparr>"
  by (simp add: learner_inv_def)

text \<open>
  Claim C4. For every valid input (a nonempty list of rectangular images, each at least
  \<open>N \<times> N\<close>, with \<open>N \<ge> 1\<close>) \<^verbatim>\<open>learn\<close> returns a model, and the sum of its weights is
  the number of windows scanned: the sum over the images of
  \<open>(H - N + 1) \<cdot> (W - N + 1)\<close>.
\<close>

theorem weight_conservation:
  assumes "valid_input images N"
  shows "\<exists>m. learn images N = Inr m \<and>
     int (sum_list (model_weights m)) =
       (\<Sum>img\<leftarrow>images. (int (length img) - N + 1) * (int (length (hd img)) - N + 1))"
proof -
  let ?st0 = "\<lparr>ls_patterns = [], ls_weights = [], ls_uniquePatterns = Map.empty\<rparr>"
  from assms have N: "1 \<le> N"
    and big: "\<forall>img\<in>set images. N \<le> int (length img) \<and> N \<le> int (length (hd img))"
    unfolding valid_input_def by blast+
  have ne: "\<forall>img\<in>set images. img \<noteq> []"
  proof
    fix img assume "img \<in> set images"
    with big N have "1 \<le> int (length img)" by fastforce
    then show "img \<noteq> []" by auto
  qed
  from scan_images_ok[OF ne] obtain st where st: "scan_images images N ?st0 = Inr st" by blast
  from scan_images_inv[OF st learner_inv_init]
  have sum: "sum_list (ls_weights st) = (\<Sum>img\<leftarrow>images. windows img N)" by simp
  from scan_images_square[OF st] have "\<forall>q\<in>set (ls_patterns st). square N q" by simp
  from getAdjacencies_ok[OF this N] obtain A where A: "getAdjacencies (ls_patterns st) = Inr A" ..
  have "int (windows img N) = (int (length img) - N + 1) * (int (length (hd img)) - N + 1)"
    if "img \<in> set images" for img
  proof -
    from big that have "0 \<le> int (length img) - N + 1" "0 \<le> int (length (hd img)) - N + 1"
      by fastforce+
    then show ?thesis by (simp add: windows_def)
  qed
  then have "(\<Sum>img\<leftarrow>images. int (windows img N)) =
      (\<Sum>img\<leftarrow>images. (int (length img) - N + 1) * (int (length (hd img)) - N + 1))"
    by (simp cong: map_cong)
  moreover have "int (sum_list (ls_weights st)) = (\<Sum>img\<leftarrow>images. int (windows img N))"
    unfolding sum by (induction images) simp_all
  ultimately show ?thesis
    using st A by (simp add: learn_def getPatternsAndWeights_def)
qed

lemmas learn_eval = learn_def getPatternsAndWeights_def getPattern_def addPattern_def toString_def
  js_nth_def tileAt_def getAdjacencies_def isAdjacent_def DIRECTIONS_def start_of_def end_of_def
  loop_range_def patternAt_def setAdjacent_def oppositeDirIndex_def newBitmask_def setBit_def
  upto.simps upt_rec eval_nat_numeral

text \<open>
  Claim C1 on the image \<open>[[0,0],[0,0]]\<close> with \<open>N = 2\<close>: one pattern of weight 1, whose
  overlap with itself matches in all four directions, and yet no bit of its four
  adjacency masks is set: the loop over \<open>j\<close> starts at \<open>i + 1\<close> and the pair \<open>(i, i)\<close> is
  never tested.
\<close>

theorem self_adjacency_not_recorded:
  "learn [[[0, 0], [0, 0]]] 2 =
     Inr \<lparr>model_patterns = [[[Some 0, Some 0], [Some 0, Some 0]]], model_weights = [1],
          model_adjacencies = [[[False], [False], [False], [False]]]\<rparr>
   \<and> isAdjacent [[Some 0, Some 0], [Some 0, Some 0]] [[Some 0, Some 0], [Some 0, Some 0]] (-1, 0) = Inr True
   \<and> isAdjacent [[Some 0, Some 0], [Some 0, Some 0]] [[Some 0, Some 0], [Some 0, Some 0]] (1, 0) = Inr True
   \<and> isAdjacent [[Some 0, Some 0], [Some 0, Some 0]] [[Some 0, Some 0], [Some 0, Some 0]] (0, -1) = Inr True
   \<and> isAdjacent [[Some 0, Some 0], [Some 0, Some 0]] [[Some 0, Some 0], [Some 0, Some 0]] (0, 1) = Inr True
   \<and> toArray [False] = []"
  by (simp add: learn_eval toArray_def)

text \<open>
  Claim C3 as stated fails: on the striped image the learned weights are not \<open>[3, 2]\<close>.
\<close>

theorem stripe_weights_counterexample:
  "map_sum id model_weights (learn [[[0, 1, 0, 1], [0, 1, 0, 1], [0, 1, 0, 1]]] 2) \<noteq> Inr [3, 2]"
  by (simp add: learn_eval)

text \<open>
  Claim C3, as amended. On the image \<open>[[0,1,0,1],[0,1,0,1],[0,1,0,1]]\<close> with \<open>N = 2\<close>,
  \<^verbatim>\<open>learn\<close> produces exactly the two patterns \<open>[[0,1],[0,1]]\<close> and \<open>[[1,0],[1,0]]\<close>, in
  that order, with weights \<open>[4, 2]\<close>: the six windows of the scan.
\<close>

theorem stripe_learned_model:
  "map_sum id (\<lambda>m. (model_patterns m, model_weights m))
     (learn [[[0, 1, 0, 1], [0, 1, 0, 1], [0, 1, 0, 1]]] 2) =
   Inr ([[[Some 0, Some 1], [Some 0, Some 1]], [[Some 1, Some 0], [Some 1, Some 0]]], [4, 2])"
  by (simp add: learn_eval)

lemma scan_y_no_columns:
  "img \<noteq> [] \<Longrightarrow> int (length (hd img)) < N \<Longrightarrow> scan_y img N ys st = Inr st"
proof (induction ys)
  case Nil
  then show ?case by simp
next
  case (Cons y ys)
  from Cons.prems(1) have "js_nth img 0 = Some (hd img)" by (cases img) (simp_all add: js_nth_def)
  moreover from Cons.prems(2) have "nat (int (length (hd img)) - N + 1) = 0" by simp
  ultimately show ?case using Cons by simp
qed

lemma scan_small_image:
  assumes "too_small img N"
  shows "scan_y img N [0..<nat (int (length img) - N + 1)] st = Inr st"
proof (cases "int (length img) < N")
  case True
  then show ?thesis by simp
next
  case False
  with assms show ?thesis by (simp add: too_small_def scan_y_no_columns)
qed

lemma scan_images_skip:
  "too_small img N \<Longrightarrow> scan_images (pre @ img # post) N st = scan_images (pre @ post) N st"
proof (induction pre arbitrary: st)
  case Nil
  then show ?case by (simp add: scan_small_image)
next
  case (Cons a pre)
  then show ?case by (simp split: sum.splits)
qed

text \<open>
  Claim C5 as stated fails: for an image smaller than \<open>N\<close>, and for \<open>N = 0\<close>, \<^verbatim>\<open>learn\<close>
  returns a model and no error.
\<close>

theorem learn_small_image_counterexample:
  "learn [[[0]]] 2 = Inr \<lparr>model_patterns = [], model_weights = [], model_adjacencies = []\<rparr>
   \<and> learn [[[0]]] 0 = Inr \<lparr>model_patterns = [[]], model_weights = [4],
        model_adjacencies = [[[False], [False], [False], [False]]]\<rparr>"
  by (simp add: learn_eval)

theorem weight_conservation_witness:
  "valid_input [[[0, 0], [0, 0]]] 2 \<and>
   (\<exists>m. learn [[[0, 0], [0, 0]]] 2 = Inr m \<and>
     int (sum_list (model_weights m)) = 1)"
proof -
  have v: "valid_input [[[0, 0], [0, 0]]] 2" by (simp add: valid_input_def)
  from weight_conservation[OF v] v show ?thesis by simp
qed

theorem adjacency_symmetric_witness:
  "learn [[[0, 1, 0, 1], [0, 1, 0, 1], [0, 1, 0, 1]]] 2 =
     Inr \<lparr>model_patterns = [[[Some 0, Some 1], [Some 0, Some 1]], [[Some 1, Some 0], [Some 1, Some 0]]],
          model_weights = [4, 2],
          model_adjacencies = [[[False, False], [False, False], [False, True], [False, True]],
                               [[False, False], [False, False], [True, False], [True, False]]]\<rparr>
   \<and> testBit [False, True] 1 \<and> testBit [True, False] 0"
proof -
  let ?m = "\<lparr>model_patterns = [[[Some 0, Some 1], [Some 0, Some 1]], [[Some 1, Some 0], [Some 1, Some 0]]],
          model_weights = [4, 2],
          model_adjacencies = [[[False, False], [False, False], [False, True], [False, True]],
                               [[False, False], [False, False], [True, False], [True, False]]]\<rparr>"
  have l: "learn [[[0, 1, 0, 1], [0, 1, 0, 1], [0, 1, 0, 1]]] 2 = Inr ?m" by (simp add: learn_eval)
  from adjacency_symmetric[OF l, of 0 1] l show ?thesis by (simp add: testBit_def)
qed

lemma getPattern_empty: "N < 1 \<Longrightarrow> getPattern img N y x = Inr []"
  by (simp add: getPattern_def)

lemma addPattern_counted: "addPattern [] (counted k) = counted (Suc k)"
  by (simp add: addPattern_def counted_def toString_def)

lemma scan_x_counted:
  "N < 1 \<Longrightarrow> scan_x img N y xs (counted k) = Inr (counted (k + length xs))"
  by (induction xs arbitrary: k) (simp_all add: getPattern_empty addPattern_counted)

lemma scan_y_counted:
  "N < 1 \<Longrightarrow> img \<noteq> [] \<Longrightarrow>
   scan_y img N ys (counted k) = Inr (counted (k + length ys * nat (int (length (hd img)) - N + 1)))"
proof (induction ys arbitrary: k)
  case Nil
  then show ?case by simp
next
  case (Cons y ys)
  from Cons.prems(2) have "js_nth img 0 = Some (hd img)" by (cases img) (simp_all add: js_nth_def)
  then show ?case using Cons by (simp add: scan_x_counted add.assoc)
qed

lemma scan_images_counted:
  "N < 1 \<Longrightarrow> \<forall>img\<in>set images. img \<noteq> [] \<Longrightarrow>
   scan_images images N (counted k) = Inr (counted (k + (\<Sum>img\<leftarrow>images. windows img N)))"
proof (induction images arbitrary: k)
  case Nil
  then show ?case by simp
next
  case (Cons img images)
  then show ?case by (simp add: scan_y_counted windows_def add.assoc)
qed

lemma windows_positive: "N < 1 \<Longrightarrow> 0 < windows img N"
  by (simp add: windows_def)

text \<open>
  Claim C5, as amended. \<^verbatim>\<open>learn\<close> validates nothing. An image that is smaller than \<open>N\<close>
  in either dimension (fewer than \<open>N\<close> rows, or a first row shorter than \<open>N\<close>)
  contributes no window: \<^verbatim>\<open>learn\<close> returns what it returns without that image. For
  \<open>N < 1\<close> and images that have a first row, every window is the empty pattern, and
  \<^verbatim>\<open>learn\<close> returns the model of that one pattern, weighted by the number of windows.
\<close>

theorem learn_without_validation:
  "(too_small img N \<longrightarrow> learn (pre @ img # post) N = learn (pre @ post) N)
   \<and> (N < 1 \<longrightarrow> images \<noteq> [] \<longrightarrow> (\<forall>img\<in>set images. img \<noteq> []) \<longrightarrow>
        learn images N =
          Inr \<lparr>model_patterns = [[]], model_weights = [\<Sum>img\<leftarrow>images. windows img N],
               model_adjacencies = [[[False], [False], [False], [False]]]\<rparr>)"
proof (intro conjI impI)
  assume "too_small img N"
  from scan_images_skip[OF this]
  show "learn (pre @ img # post) N = learn (pre @ post) N"
    by (simp add: learn_def getPatternsAndWeights_def)
next
  assume N: "N < 1" and ne: "images \<noteq> []" and rows: "\<forall>img\<in>set images. img \<noteq> []"
  let ?k = "\<Sum>img\<leftarrow>images. windows img N"
  from ne obtain img rest where "images = img # rest" by (cases images) auto
  with windows_positive[OF N, of img] have pos: "0 < ?k" by simp
  have "counted 0 = \<lparr>ls_patterns = [], ls_weights = [], ls_uniquePatterns = Map.empty\<rparr>"
    by (simp add: counted_def)
  with scan_images_counted[OF N rows, of 0]
  have "getPatternsAndWeights images N = Inr (counted ?k)"
    by (simp add: getPatternsAndWeights_def)
  moreover have "getAdjacencies [[]] = Inr [[[False], [False], [False], [False]]]"
    by (simp add: getAdjacencies_def newBitmask_def eval_nat_numeral)
  moreover have "counted ?k = \<lparr>ls_patterns = [[]], ls_weights = [?k], ls_uniquePatterns = [[] \<mapsto> 0]\<rparr>"
    using pos unfolding counted_def by (simp only: if_False less_not_refl2[THEN not_sym] neq0_conv[symmetric])
  ultimately show "learn images N =
          Inr \<lparr>model_patterns = [[]], model_weights = [?k],
               model_adjacencies = [[[False], [False], [False], [False]]]\<rparr>"
    by (simp add: learn_def)
qed

theorem learn_without_validation_witness:
  "too_small [[0]] 2 \<and> learn ([] @ [[0]] # []) 2 = learn ([] @ []) 2
   \<and> (0::int) < 1 \<and> [[[7::int]]] \<noteq> []
   \<and> learn [[[7]]] 0 =
        Inr \<lparr>model_patterns = [[]], model_weights = [4],
             model_adjacencies = [[[False], [False], [False], [False]]]\<rparr>"
proof -
  have t: "too_small [[0]] 2" by (simp add: too_small_def)
  from learn_without_validation[of "[[0]]" 2 "[]" "[]", THEN conjunct1] t
  have a: "learn ([] @ [[0]] # []) 2 = learn ([] @ []) 2" by blast
  have n: "(0::int) < 1" by simp
  have i: "[[[7::int]]] \<noteq> []" by simp
  have r: "\<forall>img\<in>set [[[7::int]]]. img \<noteq> []" by simp
  from learn_without_validation[of _ 0 _ _ "[[[7]]]", THEN conjunct2] n i r
  have "learn [[[7]]] 0 =
        Inr \<lparr>model_patterns = [[]], model_weights = [\<Sum>img\<leftarrow>[[[7]]]. windows img 0],
             model_adjacencies = [[[False], [False], [False], [False]]]\<rparr>" by blast
  then have b: "learn [[[7]]] 0 =
        Inr \<lparr>model_patterns = [[]], model_weights = [4],
             model_adjacencies = [[[False], [False], [False], [False]]]\<rparr>"
    by (simp add: windows_def)
  from t a n i b show ?thesis by (intro conjI)
qed

lemma setAdjacent_pair_irreflexive:
  assumes sh: "adj_shape P A" and ir: "adj_irreflexive P A" and k: "k < 4" and ij: "i \<noteq> j"
  shows "adj_irreflexive P (setAdjacent (setAdjacent A i k j) j (oppositeDirIndex k) i)"
proof -
  have sh1: "adj_shape P (setAdjacent A i k j)" using sh by (rule setAdjacent_shape)
  show ?thesis
    unfolding adj_irreflexive_def
  proof (intro allI impI)
    fix a d :: nat assume a: "a < P" and d: "d < 4"
    from ir a d have "\<not> A ! a ! d ! a" by (simp add: adj_irreflexive_def)
    with ij setAdjacent_nth[OF sh1 a d a] setAdjacent_nth[OF sh a d a]
    show "\<not> setAdjacent (setAdjacent A i k j) j (oppositeDirIndex k) i ! a ! d ! a" by auto
  qed
qed

lemma adj_k_irreflexive:
  "adj_k ps i j ks A = Inr A' \<Longrightarrow> \<forall>k\<in>set ks. k < 4 \<Longrightarrow> i \<noteq> j \<Longrightarrow>
   adj_shape P A \<Longrightarrow> adj_irreflexive P A \<Longrightarrow> adj_irreflexive P A'"
proof (induction ks arbitrary: A)
  case Nil
  then show ?case by simp
next
  case (Cons k ks)
  from Cons.prems(2) have k: "k < 4" and ks: "\<forall>k\<in>set ks. k < 4" by simp_all
  show ?case
  proof (cases "isAdjacent (ps ! i) (ps ! j) (DIRECTIONS ! k)")
    case (Inl e)
    with Cons.prems(1) show ?thesis by simp
  next
    case (Inr b)
    show ?thesis
    proof (cases b)
      case True
      let ?B = "setAdjacent (setAdjacent A i k j) j (oppositeDirIndex k) i"
      from Cons.prems(1) Inr True have run: "adj_k ps i j ks ?B = Inr A'" by simp
      have "adj_shape P ?B" using Cons.prems(4) by (intro setAdjacent_shape)
      moreover have "adj_irreflexive P ?B"
        using Cons.prems(4,5) k Cons.prems(3) by (rule setAdjacent_pair_irreflexive)
      ultimately show ?thesis using Cons.IH[OF run ks Cons.prems(3)] by blast
    next
      case False
      with Cons.prems(1) Inr have "adj_k ps i j ks A = Inr A'" by simp
      from Cons.IH[OF this ks Cons.prems(3,4,5)] show ?thesis .
    qed
  qed
qed

lemma adj_j_irreflexive:
  "adj_j ps i js A = Inr A' \<Longrightarrow> \<forall>j\<in>set js. i \<noteq> j \<Longrightarrow>
   adj_shape P A \<Longrightarrow> adj_sym P A \<Longrightarrow> adj_irreflexive P A \<Longrightarrow> adj_irreflexive P A'"
proof (induction js arbitrary: A)
  case Nil
  then show ?case by simp
next
  case (Cons j js)
  from Cons.prems(1) obtain B where B: "adj_k ps i j [0..<length DIRECTIONS] A = Inr B"
    and run: "adj_j ps i js B = Inr A'"
    by (auto split: sum.splits)
  have dirs: "\<forall>k\<in>set [0..<length DIRECTIONS]. k < 4" by (simp add: DIRECTIONS_def)
  from Cons.prems(2) have ij: "i \<noteq> j" and rest: "\<forall>j\<in>set js. i \<noteq> j" by simp_all
  from adj_k_inv[OF B dirs Cons.prems(3,4)] have "adj_shape P B" "adj_sym P B" by simp_all
  moreover from adj_k_irreflexive[OF B dirs ij Cons.prems(3,5)] have "adj_irreflexive P B" .
  ultimately show ?case using Cons.IH[OF run rest] by blast
qed

lemma adj_i_irreflexive:
  "adj_i ps is A = Inr A' \<Longrightarrow>
   adj_shape P A \<Longrightarrow> adj_sym P A \<Longrightarrow> adj_irreflexive P A \<Longrightarrow> adj_irreflexive P A'"
proof (induction "is" arbitrary: A)
  case Nil
  then show ?case by simp
next
  case (Cons i "is")
  from Cons.prems(1) obtain B where B: "adj_j ps i [i + 1..<length ps] A = Inr B"
    and run: "adj_i ps is B = Inr A'"
    by (auto split: sum.splits)
  have later: "\<forall>j\<in>set [i + 1..<length ps]. i \<noteq> j" by auto
  from adj_j_inv[OF B Cons.prems(2,3)] have "adj_shape P B" "adj_sym P B" by simp_all
  moreover from adj_j_irreflexive[OF B later Cons.prems(2,3,4)] have "adj_irreflexive P B" .
  ultimately show ?case using Cons.IH[OF run] by blast
qed

lemma self_bits_never_set:
  assumes "learn images N = Inr m" "i < length (model_patterns m)" "k < 4"
  shows "\<not> testBit (model_adjacencies m ! i ! k) i"
proof -
  let ?P = "length (model_patterns m)"
  let ?A0 = "replicate ?P (replicate 4 (newBitmask ?P))"
  have "adj_shape ?P ?A0" by (simp add: adj_shape_def newBitmask_def)
  moreover have "adj_sym ?P ?A0" by (simp add: adj_sym_def newBitmask_def oppositeDirIndex_lt)
  moreover have "adj_irreflexive ?P ?A0" by (simp add: adj_irreflexive_def newBitmask_def)
  ultimately have "adj_irreflexive ?P (model_adjacencies m)"
    using learn_adjacencies[OF assms(1)] adj_i_irreflexive unfolding getAdjacencies_def by blast
  with assms(2,3) show ?thesis by (simp add: adj_irreflexive_def testBit_def)
qed

section \<open>Properties of the solver\<close>

lemma set_toArray: "set (toArray m) = {i. i < length m \<and> m ! i}"
  by (auto simp: toArray_def)

lemma distinct_toArray: "distinct (toArray m)"
  by (simp add: toArray_def)

lemma sorted_toArray: "sorted (toArray m)"
  by (simp add: toArray_def sorted_wrt_filter)

lemma popCount_card: "popCount m = card {i. i < length m \<and> m ! i}"
  unfolding popCount_def using distinct_card[OF distinct_toArray, of m] by (simp add: set_toArray)

lemma length_AND: "length (bitmask_AND a b) = min (length a) (length b)"
  by (simp add: bitmask_AND_def)

lemma nth_AND: "i < length a \<Longrightarrow> i < length b \<Longrightarrow> bitmask_AND a b ! i = (a ! i \<and> b ! i)"
  by (simp add: bitmask_AND_def)

lemma bits_AND_subset:
  "{i. i < length (bitmask_AND a b) \<and> bitmask_AND a b ! i} \<subseteq> {i. i < length a \<and> a ! i}"
  by (auto simp: length_AND nth_AND)

lemma popCount_AND_le: "popCount (bitmask_AND a b) \<le> popCount a"
  unfolding popCount_card by (rule card_mono[OF _ bits_AND_subset]) simp

lemma mask_size_AND_le: "mask_size (bitmask_AND a b) \<le> mask_size a"
  unfolding mask_size_def using popCount_AND_le[of a b] by (simp add: length_AND)

lemma mask_size_AND_less:
  assumes "bitmask_AND a b \<noteq> a"
  shows "mask_size (bitmask_AND a b) < mask_size a"
proof (cases "length b < length a")
  case True
  then show ?thesis unfolding mask_size_def using popCount_AND_le[of a b] by (simp add: length_AND)
next
  case False
  then have len: "length (bitmask_AND a b) = length a" by (simp add: length_AND)
  from assms len obtain i where i: "i < length a" "bitmask_AND a b ! i \<noteq> a ! i"
    by (auto simp: list_eq_iff_nth_eq)
  with False have "a ! i" "\<not> bitmask_AND a b ! i" by (auto simp: nth_AND)
  with i len have "{i. i < length (bitmask_AND a b) \<and> bitmask_AND a b ! i} \<subset> {i. i < length a \<and> a ! i}"
    using bits_AND_subset[of a b] by auto
  then have "popCount (bitmask_AND a b) < popCount a"
    unfolding popCount_card by (intro psubset_card_mono) simp_all
  then show ?thesis by (simp add: mask_size_def len)
qed

lemma cellAt_SomeD:
  "cellAt w y x = Some c \<Longrightarrow> 0 \<le> y \<and> nat y < length w \<and> 0 \<le> x \<and> nat x < length (w ! nat y) \<and> c = w ! nat y ! nat x"
  by (auto simp: cellAt_def js_nth_def split: option.splits if_splits)

lemma sum_list_map_update:
  fixes f :: "'a \<Rightarrow> nat"
  shows "i < length xs \<Longrightarrow> sum_list (map f (xs[i := v])) + f (xs ! i) = sum_list (map f xs) + f v"
proof (induction xs arbitrary: i)
  case Nil
  then show ?case by simp
next
  case (Cons a xs)
  then show ?case by (cases i) auto
qed

lemma wsum_setCell:
  assumes "cellAt w y x = Some c"
  shows "wsum f (setCell w y x m) + f c = wsum f w + f m"
proof -
  from cellAt_SomeD[OF assms] have y: "nat y < length w" and x: "nat x < length (w ! nat y)"
    and c: "c = w ! nat y ! nat x" by simp_all
  let ?g = "\<lambda>row. sum_list (map f row)"
  have row: "?g ((w ! nat y)[nat x := m]) + f c = ?g (w ! nat y) + f m"
    unfolding c by (rule sum_list_map_update[OF x])
  have "wsum f (setCell w y x m) + ?g (w ! nat y) = wsum f w + ?g ((w ! nat y)[nat x := m])"
    unfolding wsum_def setCell_def by (rule sum_list_map_update[OF y])
  with row show ?thesis by linarith
qed

lemma propagate_dirs_skip:
  "out_of_bounds w (y1 - fst (DIRECTIONS ! k)) (x1 - snd (DIRECTIONS ! k)) \<Longrightarrow>
   propagate_dirs A S y1 x1 (k # ks) w q = propagate_dirs A S y1 x1 ks w q"
  unfolding out_of_bounds_def by (simp only: propagate_dirs.simps Let_def) auto

lemma propagate_dirs_visit:
  assumes "\<not> out_of_bounds w (y1 - fst (DIRECTIONS ! k)) (x1 - snd (DIRECTIONS ! k))"
  shows "propagate_dirs A S y1 x1 (k # ks) w q =
    (case cellAt w (y1 - fst (DIRECTIONS ! k)) (x1 - snd (DIRECTIONS ! k)) of
       None \<Rightarrow> Inl TypeError
     | Some cell2 \<Rightarrow>
        (case combineAdjacent A k S (newBitmask (length A)) of
           Inl e \<Rightarrow> Inl e
         | Inr adjm \<Rightarrow>
             if isEmpty (bitmask_AND cell2 adjm) then Inr (True, w, q)
             else if bitmask_AND cell2 adjm \<noteq> cell2
             then propagate_dirs A S y1 x1 ks
                    (setCell w (y1 - fst (DIRECTIONS ! k)) (x1 - snd (DIRECTIONS ! k)) (bitmask_AND cell2 adjm))
                    (q @ [(y1 - fst (DIRECTIONS ! k), x1 - snd (DIRECTIONS ! k))])
             else propagate_dirs A S y1 x1 ks w q))"
  using assms unfolding out_of_bounds_def
  by (simp only: propagate_dirs.simps Let_def bitmask_EQUALS_def)
     (auto split: option.splits sum.splits)

declare propagate_dirs.simps(2) [simp del]

lemma propagate_dirs_rule:
  assumes run: "propagate_dirs A S y1 x1 ks w q = Inr (b, w', q')"
    and base: "I w q"
    and step: "\<And>k w q y2 x2 cell2 adjm.
       I w q \<Longrightarrow> k \<in> set ks \<Longrightarrow> y2 = y1 - fst (DIRECTIONS ! k) \<Longrightarrow> x2 = x1 - snd (DIRECTIONS ! k)
       \<Longrightarrow> cellAt w y2 x2 = Some cell2
       \<Longrightarrow> combineAdjacent A k S (newBitmask (length A)) = Inr adjm
       \<Longrightarrow> \<not> isEmpty (bitmask_AND cell2 adjm) \<Longrightarrow> bitmask_AND cell2 adjm \<noteq> cell2
       \<Longrightarrow> I (setCell w y2 x2 (bitmask_AND cell2 adjm)) (q @ [(y2, x2)])"
  shows "I w' q'"
  using run base step
proof (induction ks arbitrary: w q)
  case Nil
  then show ?case by simp
next
  case (Cons k ks)
  let ?y2 = "y1 - fst (DIRECTIONS ! k)" and ?x2 = "x1 - snd (DIRECTIONS ! k)"
  have step': "\<And>k w q y2 x2 cell2 adjm.
       I w q \<Longrightarrow> k \<in> set ks \<Longrightarrow> y2 = y1 - fst (DIRECTIONS ! k) \<Longrightarrow> x2 = x1 - snd (DIRECTIONS ! k)
       \<Longrightarrow> cellAt w y2 x2 = Some cell2
       \<Longrightarrow> combineAdjacent A k S (newBitmask (length A)) = Inr adjm
       \<Longrightarrow> \<not> isEmpty (bitmask_AND cell2 adjm) \<Longrightarrow> bitmask_AND cell2 adjm \<noteq> cell2
       \<Longrightarrow> I (setCell w y2 x2 (bitmask_AND cell2 adjm)) (q @ [(y2, x2)])"
    using Cons.prems(3) by simp
  show ?case
  proof (cases "out_of_bounds w ?y2 ?x2")
    case True
    with Cons.prems(1) have "propagate_dirs A S y1 x1 ks w q = Inr (b, w', q')"
      by (simp add: propagate_dirs_skip)
    from Cons.IH[OF this Cons.prems(2) step'] show ?thesis .
  next
    case False
    note vis = propagate_dirs_visit[OF False, of A S ks q]
    with Cons.prems(1) obtain cell2 adjm where c2: "cellAt w ?y2 ?x2 = Some cell2"
      and adjm: "combineAdjacent A k S (newBitmask (length A)) = Inr adjm"
      by (auto split: option.splits sum.splits)
    let ?new = "bitmask_AND cell2 adjm"
    show ?thesis
    proof (cases "isEmpty ?new")
      case True
      with Cons.prems(1) vis c2 adjm have "w' = w" "q' = q" by simp_all
      with Cons.prems(2) show ?thesis by simp
    next
      case ne: False
      show ?thesis
      proof (cases "?new = cell2")
        case True
        with Cons.prems(1) vis c2 adjm ne have "propagate_dirs A S y1 x1 ks w q = Inr (b, w', q')"
          by simp
        from Cons.IH[OF this Cons.prems(2) step'] show ?thesis .
      next
        case neq: False
        with Cons.prems(1) vis c2 adjm ne
        have run: "propagate_dirs A S y1 x1 ks (setCell w ?y2 ?x2 ?new) (q @ [(?y2, ?x2)]) = Inr (b, w', q')"
          by simp
        have "I (setCell w ?y2 ?x2 ?new) (q @ [(?y2, ?x2)])"
          using Cons.prems(3)[OF Cons.prems(2) _ refl refl c2 adjm ne neq] by simp
        from Cons.IH[OF run this step'] show ?thesis .
      qed
    qed
  qed
qed

lemma propagate_dirs_measure:
  assumes "propagate_dirs A S y1 x1 ks w q = Inr (b, w', q')"
  shows "wsum mask_size w' + length q' \<le> wsum mask_size w + length q \<and> wsum mask_size w' \<le> wsum mask_size w"
proof (rule propagate_dirs_rule[OF assms, where I = "\<lambda>v r. wsum mask_size v + length r \<le> wsum mask_size w + length q \<and> wsum mask_size v \<le> wsum mask_size w"])
  show "wsum mask_size w + length q \<le> wsum mask_size w + length q \<and> wsum mask_size w \<le> wsum mask_size w" by simp
next
  fix k v and r :: "(int \<times> int) list" and y2 x2 cell2 adjm
  assume I: "wsum mask_size v + length r \<le> wsum mask_size w + length q \<and> wsum mask_size v \<le> wsum mask_size w"
    and c2: "cellAt v y2 x2 = Some cell2" and neq: "bitmask_AND cell2 adjm \<noteq> cell2"
  from wsum_setCell[OF c2, of mask_size "bitmask_AND cell2 adjm"] mask_size_AND_less[OF neq]
  have "wsum mask_size (setCell v y2 x2 (bitmask_AND cell2 adjm)) < wsum mask_size v" by linarith
  with I show "wsum mask_size (setCell v y2 x2 (bitmask_AND cell2 adjm)) + length (r @ [(y2, x2)])
       \<le> wsum mask_size w + length q \<and> wsum mask_size (setCell v y2 x2 (bitmask_AND cell2 adjm)) \<le> wsum mask_size w"
    by simp
qed

lemma propagate_dirs_popCount:
  assumes "propagate_dirs A S y1 x1 ks w q = Inr (b, w', q')"
  shows "wsum popCount w' \<le> wsum popCount w"
proof (rule propagate_dirs_rule[OF assms, where I = "\<lambda>v r. wsum popCount v \<le> wsum popCount w"])
  show "wsum popCount w \<le> wsum popCount w" by simp
next
  fix k v and r :: "(int \<times> int) list" and y2 x2 cell2 adjm
  assume I: "wsum popCount v \<le> wsum popCount w"
    and c2: "cellAt v y2 x2 = Some cell2"
  from wsum_setCell[OF c2, of popCount "bitmask_AND cell2 adjm"] popCount_AND_le[of cell2 adjm] I
  show "wsum popCount (setCell v y2 x2 (bitmask_AND cell2 adjm)) \<le> wsum popCount w" by linarith
qed

lemma all_nonempty_setCell:
  assumes "all_nonempty w" "\<not> isEmpty m"
  shows "all_nonempty (setCell w y x m)"
proof (cases "nat y < length w")
  case True
  then have "w ! nat y \<in> set w" by (rule nth_mem)
  with assms have "\<forall>cell\<in>insert m (set (w ! nat y)). \<not> isEmpty cell"
    by (simp add: all_nonempty_def)
  with set_update_subset_insert[of "w ! nat y" "nat x" m]
  have row: "\<forall>cell\<in>set ((w ! nat y)[nat x := m]). \<not> isEmpty cell" by blast
  have "\<forall>cell\<in>set r. \<not> isEmpty cell" if "r \<in> set (w[nat y := (w ! nat y)[nat x := m]])" for r
    using that set_update_subset_insert[of w "nat y" "(w ! nat y)[nat x := m]"] row assms(1)
    unfolding all_nonempty_def by blast
  then show ?thesis unfolding all_nonempty_def setCell_def by blast
next
  case False
  then show ?thesis using assms(1) by (simp add: setCell_def list_update_beyond)
qed

lemma propagate_dirs_nonempty:
  assumes "propagate_dirs A S y1 x1 ks w q = Inr (b, w', q')" "all_nonempty w"
  shows "all_nonempty w'"
  by (rule propagate_dirs_rule[OF assms(1), where I = "\<lambda>v r. all_nonempty v"])
     (simp_all add: assms(2) all_nonempty_setCell)

lemma cells_shrink_refl: "cells_shrink w w"
  by (simp add: cells_shrink_def)

lemma cells_shrink_trans: "cells_shrink u v \<Longrightarrow> cells_shrink v w \<Longrightarrow> cells_shrink u w"
  unfolding cells_shrink_def by (auto; blast)

lemma cells_shrink_setCell:
  assumes "cellAt w y x = Some c" "set (toArray m) \<subseteq> set (toArray c)"
  shows "cells_shrink w (setCell w y x m)"
proof -
  from cellAt_SomeD[OF assms(1)] have y: "nat y < length w" and x: "nat x < length (w ! nat y)"
    and c: "c = w ! nat y ! nat x" by simp_all
  have "set (toArray (setCell w y x m ! a ! b)) \<subseteq> set (toArray (w ! a ! b))"
    if "a < length w" "b < length (w ! a)" for a b
    using that y x c assms(2) unfolding setCell_def
    by (cases "a = nat y"; cases "b = nat x") (simp_all add: nth_list_update)
  moreover have "length (setCell w y x m ! a) = length (w ! a)" if "a < length w" for a
    using that unfolding setCell_def by (cases "a = nat y") (simp_all add: nth_list_update)
  ultimately show ?thesis by (simp add: cells_shrink_def setCell_def)
qed

lemma toArray_AND_subset: "set (toArray (bitmask_AND a b)) \<subseteq> set (toArray a)"
  using bits_AND_subset[of a b] by (simp add: set_toArray)

lemma propagate_dirs_shrink:
  assumes "propagate_dirs A S y1 x1 ks w q = Inr (b, w', q')"
  shows "cells_shrink w w'"
proof (rule propagate_dirs_rule[OF assms, where I = "\<lambda>v r. cells_shrink w v"])
  show "cells_shrink w w" by (rule cells_shrink_refl)
next
  fix k v and r :: "(int \<times> int) list" and y2 x2 cell2 adjm
  assume I: "cells_shrink w v" and c2: "cellAt v y2 x2 = Some cell2"
  from cells_shrink_setCell[OF c2 toArray_AND_subset[of cell2 adjm]]
  show "cells_shrink w (setCell v y2 x2 (bitmask_AND cell2 adjm))"
    using I by (rule cells_shrink_trans[rotated])
qed

lemma filter_eq_upt: "p < n \<Longrightarrow> filter (\<lambda>i. i = p) [0..<n] = [p]"
  by (induction n) (auto simp: less_Suc_eq filter_empty_conv)

lemma toArray_single: "p < length m \<Longrightarrow> toArray (setBit (clear m) p) = [p]"
proof -
  assume p: "p < length m"
  have "filter (\<lambda>i. (replicate (length m) False)[p := True] ! i) [0..<length m] = filter (\<lambda>i. i = p) [0..<length m]"
    by (rule filter_cong) (use p in \<open>auto simp: nth_list_update\<close>)
  also have "\<dots> = [p]" using p by (rule filter_eq_upt)
  finally show ?thesis by (simp add: toArray_def setBit_def clear_def)
qed

lemma lookupWeights_length: "lookupWeights weights is = Some ws \<Longrightarrow> length ws = length is"
  by (induction "is" arbitrary: ws) (auto split: option.splits)

lemma pick_mem: "pick random cursor pws = Some p \<Longrightarrow> p \<in> fst ` set pws"
  by (induction random cursor pws rule: pick.induct) (auto split: if_splits)

lemma observe_InrD:
  assumes "observe y x weights r w = Inr w1"
  shows "\<exists>cell p. cellAt w y x = Some cell \<and> p \<in> set (toArray cell)
           \<and> w1 = setCell w y x (setBit (clear cell) p)"
proof -
  from assms obtain cell ws p where c: "cellAt w y x = Some cell"
    and ws: "lookupWeights weights (toArray cell) = Some ws"
    and p: "pick (r * real (sum_list ws)) 0 (zip (toArray cell) ws) = Some p"
    and w1: "w1 = setCell w y x (setBit (clear cell) p)"
    by (auto simp: observe_def Let_def split: option.splits)
  from pick_mem[OF p] have "p \<in> set (toArray cell)"
    by (auto dest: set_zip_leftD)
  with c w1 show ?thesis by blast
qed

lemma observe_popCount:
  assumes "observe y x weights r w = Inr w1"
  shows "\<exists>cell. cellAt w y x = Some cell \<and> wsum popCount w1 + popCount cell = wsum popCount w + 1"
proof -
  from observe_InrD[OF assms] obtain cell p where c: "cellAt w y x = Some cell"
    and p: "p \<in> set (toArray cell)" and w1: "w1 = setCell w y x (setBit (clear cell) p)" by blast
  from p have "p < length cell" by (simp add: set_toArray)
  then have "popCount (setBit (clear cell) p) = 1" by (simp add: popCount_def toArray_single)
  with wsum_setCell[OF c, of popCount "setBit (clear cell) p"] w1 c show ?thesis by simp
qed

lemma observe_nonempty:
  assumes "observe y x weights r w = Inr w1" "all_nonempty w"
  shows "all_nonempty w1"
proof -
  from observe_InrD[OF assms(1)] obtain cell p where
    p: "p \<in> set (toArray cell)" and w1: "w1 = setCell w y x (setBit (clear cell) p)" by blast
  from p have "p < length cell" by (simp add: set_toArray)
  then have "\<not> isEmpty (setBit (clear cell) p)" by (simp add: isEmpty_def toArray_single)
  with assms(2) w1 show ?thesis by (simp add: all_nonempty_setCell)
qed

lemma observe_error: "observe y x weights r w = Inl e \<Longrightarrow> e \<noteq> Contradiction"
  by (auto simp: observe_def Let_def split: option.splits)

lemma getShannonEntropy_positive:
  assumes "getShannonEntropy cell weights = Inr (Number v)" "v \<noteq> 0"
  shows "2 \<le> popCount cell"
proof -
  have "length (toArray cell) \<noteq> 0" "length (toArray cell) \<noteq> 1"
    using assms by (auto simp: getShannonEntropy_def Let_def split: if_splits)
  then show ?thesis unfolding popCount_def by linarith
qed

lemma getShannonEntropy_finite: "getShannonEntropy cell weights \<noteq> Inr Infinity"
  by (auto simp: getShannonEntropy_def Let_def split: if_splits option.splits)

lemma getShannonEntropy_Contradiction:
  "(getShannonEntropy cell weights = Inl e) = (e = Contradiction \<and> toArray cell = [])"
  by (auto simp: getShannonEntropy_def Let_def split: if_splits option.splits)

lemma scanEntropy_Cons:
  "cellAt w y x = Some cell \<Longrightarrow> getShannonEntropy cell weights = Inr entropy \<Longrightarrow>
   scanEntropy weights w ((y, x) # cells) least positions =
     (if num_less entropy least \<and> num_less (Number 0) entropy
      then scanEntropy weights w cells entropy [(y, x)]
      else if num_eq entropy least
      then scanEntropy weights w cells least (positions @ [(y, x)])
      else scanEntropy weights w cells least positions)"
  by simp

lemma scanEntropy_Cons_Inr:
  assumes "scanEntropy weights w ((y, x) # cells) least positions = Inr res"
  shows "\<exists>cell entropy. cellAt w y x = Some cell \<and> getShannonEntropy cell weights = Inr entropy"
proof (cases "cellAt w y x")
  case None
  with assms show ?thesis by simp
next
  case (Some cell)
  with assms show ?thesis by (cases "getShannonEntropy cell weights") simp_all
qed

declare scanEntropy.simps(2) [simp del]

lemma scanEntropy_unsolved:
  "scanEntropy weights w cells least positions = Inr (least', positions') \<Longrightarrow>
   positive_or_infinite least \<Longrightarrow> \<forall>c\<in>set positions. unsolved w c \<Longrightarrow>
   \<forall>c\<in>set positions'. unsolved w c"
proof (induction cells arbitrary: least positions)
  case Nil
  then show ?case by simp
next
  case (Cons c cells)
  obtain y x where c: "c = (y, x)" by (cases c)
  from scanEntropy_Cons_Inr[OF Cons.prems(1)[unfolded c]]
  obtain cell entropy where cell: "cellAt w y x = Some cell"
    and ent: "getShannonEntropy cell weights = Inr entropy" by blast
  note run = Cons.prems(1)[unfolded c scanEntropy_Cons[OF cell ent]]
  show ?case
  proof (cases "num_less entropy least \<and> num_less (Number 0) entropy")
    case True
    then obtain v where v: "entropy = Number v" "0 < v" by (cases entropy) auto
    from getShannonEntropy_positive[OF ent[unfolded v(1)]] v(2) cell
    have un: "\<forall>c\<in>set [(y, x)]. unsolved w c" by (simp add: unsolved_def)
    have pos: "positive_or_infinite entropy" using v by (simp add: positive_or_infinite_def)
    from run True
    have "scanEntropy weights w cells entropy [(y, x)] = Inr (least', positions')"
      by simp
    from Cons.IH[OF this pos un] show ?thesis .
  next
    case False
    show ?thesis
    proof (cases "num_eq entropy least")
      case True
      have "entropy \<noteq> Infinity" using getShannonEntropy_finite[of cell weights] ent by auto
      with True Cons.prems(2) obtain v where v: "entropy = Number v" "0 < v"
        by (cases entropy; cases least) (simp_all add: positive_or_infinite_def)
      from getShannonEntropy_positive[OF ent[unfolded v(1)]] v(2) cell
      have "unsolved w (y, x)" by (simp add: unsolved_def)
      with Cons.prems(3) have un: "\<forall>c\<in>set (positions @ [(y, x)]). unsolved w c" by simp
      from run True False
      have "scanEntropy weights w cells least (positions @ [(y, x)]) = Inr (least', positions')"
        by simp
      from Cons.IH[OF this Cons.prems(2) un] show ?thesis .
    next
      case neq: False
      with run False
      have "scanEntropy weights w cells least positions = Inr (least', positions')"
        by simp
      from Cons.IH[OF this Cons.prems(2,3)] show ?thesis .
    qed
  qed
qed

lemma getLeastEntropy_unsolved:
  assumes "getLeastEntropyUnsolvedCellPosition weights r w = Inr c"
  shows "c = (-1, -1) \<or> unsolved w c"
proof -
  let ?cells = "concat (map (\<lambda>y. map (\<lambda>x. (int y, int x)) [0..<length (w ! 0)]) [0..<length w])"
  from assms obtain least positions where sc: "scanEntropy weights w ?cells Infinity [] = Inr (least, positions)"
    by (auto simp: getLeastEntropyUnsolvedCellPosition_def Let_def split: sum.splits)
  from scanEntropy_unsolved[OF sc] have un: "\<forall>c\<in>set positions. unsolved w c"
    by (simp add: positive_or_infinite_def)
  show ?thesis
  proof (cases "positions = []")
    case True
    with assms sc show ?thesis by (simp add: getLeastEntropyUnsolvedCellPosition_def)
  next
    case False
    with assms sc have "js_nth positions (randomIndex r (length positions)) = Some c"
      by (auto simp: getLeastEntropyUnsolvedCellPosition_def Let_def split: option.splits)
    then have "c \<in> set positions" by (auto simp: js_nth_def split: if_splits)
    with un show ?thesis by blast
  qed
qed

lemma scanEntropy_error:
  "scanEntropy weights w cells least positions = Inl e \<Longrightarrow> all_nonempty w \<Longrightarrow> e \<noteq> Contradiction"
proof (induction cells arbitrary: least positions)
  case Nil
  then show ?case by simp
next
  case (Cons c cells)
  obtain y x where c: "c = (y, x)" by (cases c)
  show ?case
  proof (cases "cellAt w y x")
    case None
    with Cons.prems(1) c show ?thesis by (simp add: scanEntropy.simps(2))
  next
    case (Some cell)
    from cellAt_SomeD[OF Some] have "cell \<in> set (w ! nat y)" "w ! nat y \<in> set w" by simp_all
    with Cons.prems(2) have ne: "toArray cell \<noteq> []" by (auto simp: all_nonempty_def isEmpty_def)
    show ?thesis
    proof (cases "getShannonEntropy cell weights")
      case (Inl e')
      with ne show ?thesis by (simp add: getShannonEntropy_Contradiction)
    next
      case (Inr entropy)
      from Cons.prems(1)[unfolded c scanEntropy_Cons[OF Some Inr]]
      have "\<exists>l ps. scanEntropy weights w cells l ps = Inl e" by (auto split: if_splits)
      then show ?thesis using Cons.IH[OF _ Cons.prems(2)] by blast
    qed
  qed
qed

lemma getLeastEntropy_error:
  assumes "getLeastEntropyUnsolvedCellPosition weights r w = Inl e" "all_nonempty w"
  shows "e \<noteq> Contradiction"
proof (cases "scanEntropy weights w
    (concat (map (\<lambda>y. map (\<lambda>x. (int y, int x)) [0..<length (w ! 0)]) [0..<length w])) Infinity []")
  case (Inl e')
  with assms(1) have "e' = e" by (simp add: getLeastEntropyUnsolvedCellPosition_def)
  with scanEntropy_error[OF Inl assms(2)] show ?thesis by simp
next
  case (Inr res)
  obtain least positions where "res = (least, positions)" by (cases res)
  with assms(1) Inr show ?thesis
    by (auto simp: getLeastEntropyUnsolvedCellPosition_def Let_def split: option.splits if_splits)
qed

lemma combineAdjacent_error: "combineAdjacent A k is acc = Inl e \<Longrightarrow> e = TypeError"
  by (induction "is" arbitrary: acc) (auto split: option.splits)

lemma propagate_dirs_error: "propagate_dirs A S y1 x1 ks w q = Inl e \<Longrightarrow> e = TypeError"
proof (induction ks arbitrary: w q)
  case Nil
  then show ?case by simp
next
  case (Cons k ks)
  let ?y2 = "y1 - fst (DIRECTIONS ! k)" and ?x2 = "x1 - snd (DIRECTIONS ! k)"
  show ?case
  proof (cases "out_of_bounds w ?y2 ?x2")
    case True
    show ?thesis by (rule Cons.IH[OF Cons.prems[unfolded propagate_dirs_skip[OF True]]])
  next
    case False
    show ?thesis
      using Cons.prems[unfolded propagate_dirs_visit[OF False]] Cons.IH
      by (auto split: option.splits sum.splits if_splits dest: combineAdjacent_error)
  qed
qed

lemma propagate_loop_total:
  "\<exists>r. propagate_loop A q w = Some r \<and>
       (\<forall>e. r = Inl e \<longrightarrow> e = TypeError) \<and>
       (\<forall>b w'. r = Inr (b, w') \<longrightarrow> wsum popCount w' \<le> wsum popCount w \<and> cells_shrink w w'
           \<and> (all_nonempty w \<longrightarrow> all_nonempty w'))"
proof (induction "2 * wsum mask_size w + length q" arbitrary: w q rule: less_induct)
  case less
  show ?case
  proof (cases q)
    case Nil
    then show ?thesis by (subst propagate_loop.simps) (simp add: cells_shrink_refl)
  next
    case (Cons c rest)
    obtain y1 x1 where c: "c = (y1, x1)" by (cases c)
    show ?thesis
    proof (cases "cellAt w y1 x1")
      case None
      then show ?thesis using Cons c by (subst propagate_loop.simps) simp
    next
      case (Some cell1)
      show ?thesis
      proof (cases "propagate_dirs A (toArray cell1) y1 x1 [0..<length DIRECTIONS] w rest")
        case (Inl e)
        then show ?thesis using Cons c Some propagate_dirs_error[OF Inl]
          by (subst propagate_loop.simps) simp
      next
        case (Inr res)
        obtain b w1 q1 where res: "res = (b, w1, q1)" by (cases res)
        note run = Inr[unfolded res]
        from propagate_dirs_measure[OF run] propagate_dirs_popCount[OF run]
        have m: "wsum mask_size w1 + length q1 \<le> wsum mask_size w + length rest"
          "wsum mask_size w1 \<le> wsum mask_size w" "wsum popCount w1 \<le> wsum popCount w" by simp_all
        have ne: "all_nonempty w \<Longrightarrow> all_nonempty w1" using propagate_dirs_nonempty[OF run] .
        have sh: "cells_shrink w w1" using propagate_dirs_shrink[OF run] .
        show ?thesis
        proof (cases b)
          case True
          then show ?thesis using Cons c Some run m ne sh by (subst propagate_loop.simps) simp
        next
          case False
          from m Cons have "2 * wsum mask_size w1 + length q1 < 2 * wsum mask_size w + length q" by simp
          from less[OF this] obtain r where r: "propagate_loop A q1 w1 = Some r"
            "\<forall>e. r = Inl e \<longrightarrow> e = TypeError"
            "\<forall>b w'. r = Inr (b, w') \<longrightarrow> wsum popCount w' \<le> wsum popCount w1 \<and> cells_shrink w1 w'
               \<and> (all_nonempty w1 \<longrightarrow> all_nonempty w')"
            by blast
          have "propagate_loop A q w = Some r"
            using Cons c Some run False r(1) by (subst propagate_loop.simps) simp
          then show ?thesis using r(2,3) m(3) ne sh by (auto intro: le_trans cells_shrink_trans)
        qed
      qed
    qed
  qed
qed

lemma fold_setBit_length: "length (fold (\<lambda>i m. setBit m i) is m) = length m"
  by (induction "is" arbitrary: m) (simp_all add: setBit_def)

lemma fold_setBit_nth:
  "j < length m \<Longrightarrow> fold (\<lambda>i m. setBit m i) is m ! j = (m ! j \<or> j \<in> set is)"
proof (induction "is" arbitrary: m)
  case Nil
  then show ?case by simp
next
  case (Cons a "is")
  have "setBit m a ! j = (m ! j \<or> j = a)"
    using Cons.prems by (cases "a = j") (simp_all add: setBit_def)
  then show ?case using Cons.IH[of "setBit m a"] Cons.prems by (auto simp: setBit_def)
qed

lemma allPatternsPossible:
  "fold (\<lambda>i m. setBit m i) [0..<P] (newBitmask P) = replicate P True"
  by (rule nth_equalityI) (simp_all add: fold_setBit_length fold_setBit_nth newBitmask_def)

lemma initializeWaveMatrix_eq:
  "initializeWaveMatrix P width height = replicate height (replicate width (replicate P True))"
  by (simp add: initializeWaveMatrix_def allPatternsPossible createCopy_def)

lemma toArray_full: "toArray (replicate P True) = [0..<P]"
  by (simp add: toArray_def cong: filter_cong)

lemma initializeWaveMatrix_nonempty: "0 < P \<Longrightarrow> all_nonempty (initializeWaveMatrix P width height)"
  by (auto simp: initializeWaveMatrix_eq all_nonempty_def isEmpty_def toArray_full)

lemma observe_popCount2:
  assumes "observe y x weights r w = Inr w1"
  shows "2 * wsum popCount w1 < 2 * wsum popCount w + flag w y x"
proof -
  from observe_InrD[OF assms] obtain cell p where c: "cellAt w y x = Some cell"
    and p: "p \<in> set (toArray cell)" by blast
  from observe_popCount[OF assms] c
  have eq: "wsum popCount w1 + popCount cell = wsum popCount w + 1" by simp
  from p have "1 \<le> popCount cell" unfolding popCount_def by (cases "toArray cell") auto
  with eq c show ?thesis by (auto simp: flag_def unsolved_def)
qed

lemma solve_loop_exceeded:
  "\<not> numAttempts \<le> maxAttempts \<Longrightarrow>
   solve_loop P weights A width height maxAttempts random w y x numAttempts n = Some (Inr (False, w))"
  by (subst solve_loop.simps) simp

lemma solve_loop_observe_error:
  "numAttempts \<le> maxAttempts \<Longrightarrow> observe y x weights (random n) w = Inl e \<Longrightarrow>
   solve_loop P weights A width height maxAttempts random w y x numAttempts n = Some (Inl e)"
  by (subst solve_loop.simps) simp

lemma solve_loop_propagate_error:
  "numAttempts \<le> maxAttempts \<Longrightarrow> observe y x weights (random n) w = Inr w1 \<Longrightarrow>
   propagate y x A w1 = Some (Inl e) \<Longrightarrow>
   solve_loop P weights A width height maxAttempts random w y x numAttempts n = Some (Inl e)"
  by (subst solve_loop.simps) simp

lemma solve_loop_retry:
  "numAttempts \<le> maxAttempts \<Longrightarrow> observe y x weights (random n) w = Inr w1 \<Longrightarrow>
   propagate y x A w1 = Some (Inr (True, w2)) \<Longrightarrow>
   solve_loop P weights A width height maxAttempts random w y x numAttempts n =
   solve_loop P weights A width height maxAttempts random (initializeWaveMatrix P width height)
     (randomIndex (random (n + 1)) height) (randomIndex (random (n + 2)) width)
     (numAttempts + 1) (n + 3)"
  by (subst solve_loop.simps) simp

lemma solve_loop_least_error:
  "numAttempts \<le> maxAttempts \<Longrightarrow> observe y x weights (random n) w = Inr w1 \<Longrightarrow>
   propagate y x A w1 = Some (Inr (False, w2)) \<Longrightarrow>
   getLeastEntropyUnsolvedCellPosition weights (random (n + 1)) w2 = Inl e \<Longrightarrow>
   solve_loop P weights A width height maxAttempts random w y x numAttempts n = Some (Inl e)"
  by (subst solve_loop.simps) simp

lemma solve_loop_solved:
  "numAttempts \<le> maxAttempts \<Longrightarrow> observe y x weights (random n) w = Inr w1 \<Longrightarrow>
   propagate y x A w1 = Some (Inr (False, w2)) \<Longrightarrow>
   getLeastEntropyUnsolvedCellPosition weights (random (n + 1)) w2 = Inr (-1, -1) \<Longrightarrow>
   solve_loop P weights A width height maxAttempts random w y x numAttempts n = Some (Inr (True, w2))"
  by (subst solve_loop.simps) simp

lemma solve_loop_continue:
  "numAttempts \<le> maxAttempts \<Longrightarrow> observe y x weights (random n) w = Inr w1 \<Longrightarrow>
   propagate y x A w1 = Some (Inr (False, w2)) \<Longrightarrow>
   getLeastEntropyUnsolvedCellPosition weights (random (n + 1)) w2 = Inr (y', x') \<Longrightarrow>
   \<not> (y' = -1 \<and> x' = -1) \<Longrightarrow>
   solve_loop P weights A width height maxAttempts random w y x numAttempts n =
   solve_loop P weights A width height maxAttempts random w2 y' x' numAttempts (n + 2)"
  by (subst solve_loop.simps) auto

lemma solve_loop_total:
  "\<exists>r. solve_loop P weights A width height maxAttempts random w y x numAttempts n = Some r \<and>
       (0 < P \<longrightarrow> all_nonempty w \<longrightarrow>
          r \<noteq> Inl Contradiction \<and> (\<forall>b w'. r = Inr (b, w') \<longrightarrow> all_nonempty w'))"
proof (induction "nat (maxAttempts + 1 - numAttempts)" arbitrary: w y x numAttempts n rule: less_induct)
  case outer: less
  show ?case
  proof (induction "2 * wsum popCount w + flag w y x" arbitrary: w y x n rule: less_induct)
    case inner: less
    let ?goal = "\<lambda>w y x numAttempts n.
       \<exists>r. solve_loop P weights A width height maxAttempts random w y x numAttempts n = Some r \<and>
         (0 < P \<longrightarrow> all_nonempty w \<longrightarrow>
            r \<noteq> Inl Contradiction \<and> (\<forall>b w'. r = Inr (b, w') \<longrightarrow> all_nonempty w'))"
    show ?case
    proof (cases "numAttempts \<le> maxAttempts")
      case False
      show ?thesis unfolding solve_loop_exceeded[OF False] by simp
    next
      case le: True
      show ?thesis
      proof (cases "observe y x weights (random n) w")
        case (Inl e)
        show ?thesis unfolding solve_loop_observe_error[where random = random and n = n, OF le Inl]
          using observe_error[OF Inl] by simp
      next
        case ob: (Inr w1)
        from propagate_loop_total[of A "[(y, x)]" w1] obtain r1 where
          r1: "propagate y x A w1 = Some r1"
          and r1e: "\<forall>e. r1 = Inl e \<longrightarrow> e = TypeError"
          and r1w: "\<forall>b w'. r1 = Inr (b, w') \<longrightarrow>
             wsum popCount w' \<le> wsum popCount w1 \<and> cells_shrink w1 w' \<and> (all_nonempty w1 \<longrightarrow> all_nonempty w')"
          unfolding propagate_def by blast
        show ?thesis
        proof (cases r1)
          case (Inl e)
          with r1e have "e = TypeError" by simp
          then show ?thesis unfolding solve_loop_propagate_error[where random = random and n = n, OF le ob r1[unfolded Inl]] by simp
        next
          case (Inr bw)
          obtain b w2 where bw: "bw = (b, w2)" by (cases bw)
          note pr = r1[unfolded Inr bw]
          from r1w Inr bw have pop2: "wsum popCount w2 \<le> wsum popCount w1"
            and ne2: "all_nonempty w1 \<Longrightarrow> all_nonempty w2" by simp_all
          have ne2': "all_nonempty w \<Longrightarrow> all_nonempty w2"
            using ne2 observe_nonempty[OF ob] by blast
          show ?thesis
          proof (cases b)
            case True
            with pr have prT: "propagate y x A w1 = Some (Inr (True, w2))" by simp
            have "nat (maxAttempts + 1 - (numAttempts + 1)) < nat (maxAttempts + 1 - numAttempts)"
              using le by simp
            from outer[OF this, of "initializeWaveMatrix P width height"
                "randomIndex (random (n + 1)) height" "randomIndex (random (n + 2)) width" "n + 3"]
              initializeWaveMatrix_nonempty[of P width height]
            show ?thesis unfolding solve_loop_retry[where random = random and n = n, OF le ob prT] by blast
          next
            case False
            with pr have pr': "propagate y x A w1 = Some (Inr (False, w2))" by simp
            show ?thesis
            proof (cases "getLeastEntropyUnsolvedCellPosition weights (random (n + 1)) w2")
              case (Inl e)
              show ?thesis unfolding solve_loop_least_error[where random = random and n = n, OF le ob pr' Inl]
                using getLeastEntropy_error[OF Inl] ne2' by simp
            next
              case least: (Inr c)
              obtain y' x' where c: "c = (y', x')" by (cases c)
              show ?thesis
              proof (cases "y' = -1 \<and> x' = -1")
                case True
                with least c
                have "getLeastEntropyUnsolvedCellPosition weights (random (n + 1)) w2 = Inr (-1, -1)"
                  by simp
                from solve_loop_solved[where random = random and n = n, OF le ob pr' this] ne2' show ?thesis by simp
              next
                case neq: False
                with getLeastEntropy_unsolved[OF least] c have "unsolved w2 (y', x')" by auto
                then have "flag w2 y' x' = 0" by (simp add: flag_def)
                with pop2 observe_popCount2[OF ob]
                have "2 * wsum popCount w2 + flag w2 y' x' < 2 * wsum popCount w + flag w y x"
                  by simp
                from inner[OF this, of "n + 2"] ne2'
                show ?thesis unfolding solve_loop_continue[where random = random and n = n, OF le ob pr' least[unfolded c] neq]
                  by blast
              qed
            qed
          qed
        qed
      qed
    qed
  qed
qed

lemma lookupWeights_in_range:
  "\<forall>i\<in>set S. i < length weights \<Longrightarrow> lookupWeights weights S = Some (map ((!) weights) S)"
  by (induction S) (simp_all add: js_nth_def)

lemma pick_exists:
  "S \<noteq> [] \<Longrightarrow> r \<le> c + real (sum_list (map f S)) \<Longrightarrow> \<exists>p. pick r c (zip S (map f S)) = Some p"
proof (induction S arbitrary: c)
  case Nil
  then show ?case by simp
next
  case (Cons a S)
  show ?case
  proof (cases "r \<le> c + real (f a)")
    case True
    then show ?thesis by simp
  next
    case False
    with Cons.prems(2) have "S \<noteq> []" by auto
    moreover from Cons.prems(2) have "r \<le> (c + real (f a)) + real (sum_list (map f S))" by simp
    ultimately obtain p where "pick r (c + real (f a)) (zip S (map f S)) = Some p"
      using Cons.IH by blast
    with False show ?thesis by simp
  qed
qed

lemma pick_first:
  "sorted S \<Longrightarrow> distinct S \<Longrightarrow> pick r c (zip S (map f S)) = Some p \<Longrightarrow>
   p \<in> set S \<and> r \<le> c + real (\<Sum>i\<leftarrow>filter (\<lambda>i. i \<le> p) S. f i) \<and>
   (\<forall>q\<in>set S. q < p \<longrightarrow> c + real (\<Sum>i\<leftarrow>filter (\<lambda>i. i \<le> q) S. f i) < r)"
proof (induction S arbitrary: c)
  case Nil
  then show ?case by simp
next
  case (Cons a S)
  from Cons.prems(1,2) have gt: "\<forall>x\<in>set S. a < x" by (auto simp: le_less)
  then have none: "filter (\<lambda>i. i \<le> a) S = []" by (auto simp: filter_empty_conv)
  show ?case
  proof (cases "r \<le> c + real (f a)")
    case True
    with Cons.prems(3) have "p = a" by simp
    with True gt none show ?thesis by auto
  next
    case False
    with Cons.prems(3) have run: "pick r (c + real (f a)) (zip S (map f S)) = Some p" by simp
    from Cons.prems(1,2) have "sorted S" "distinct S" by simp_all
    from Cons.IH[OF this run] have p: "p \<in> set S"
      and ge: "r \<le> c + real (f a) + real (\<Sum>i\<leftarrow>filter (\<lambda>i. i \<le> p) S. f i)"
      and lt: "\<forall>q\<in>set S. q < p \<longrightarrow> c + real (f a) + real (\<Sum>i\<leftarrow>filter (\<lambda>i. i \<le> q) S. f i) < r"
      by simp_all
    from p gt have ap: "a < p" by simp
    have "c + real (\<Sum>i\<leftarrow>filter (\<lambda>i. i \<le> q) (a # S). f i) < r" if "q \<in> set (a # S)" "q < p" for q
    proof (cases "q = a")
      case True
      with none False show ?thesis by simp
    next
      case neq: False
      with that have q: "q \<in> set S" by simp
      with gt have "a \<le> q" by auto
      moreover from lt q that(2)
      have "c + real (f a) + real (\<Sum>i\<leftarrow>filter (\<lambda>i. i \<le> q) S. f i) < r" by blast
      ultimately show ?thesis by (simp add: add.assoc)
    qed
    with p ge ap show ?thesis by simp
  qed
qed

text \<open>With defined weights, \<^verbatim>\<open>observe\<close> is \<^verbatim>\<open>observe_with\<close> at the exact product.\<close>

lemma observe_as_observe_with:
  "cellAt w y x = Some cell \<Longrightarrow> lookupWeights weights (toArray cell) = Some ws \<Longrightarrow>
   observe y x weights rnd w = observe_with y x weights (rnd * real (sum_list ws)) w"
  by (simp add: observe_def observe_with_def)

text \<open>
  Claim C9. For a cell whose possibility set \<open>S\<close> is nonempty and whose patterns all have a
  positive weight, with total weight \<open>T\<close>, and for the value \<open>r\<close> of the variable
  \<^verbatim>\<open>random\<close>, a number in \<open>[0, T)\<close> (the theorem asks no more than \<open>r \<le> T\<close>):
  \<^verbatim>\<open>observe\<close> returns without an error and replaces the mask of the cell by the
  singleton \<open>{p}\<close>, where \<open>p\<close> is a member of \<open>S\<close>, its cumulative weight (the sum of the
  weights of the members of \<open>S\<close> up to \<open>p\<close>) is at least \<open>r\<close>, and the cumulative weight of
  every smaller member of \<open>S\<close> is below \<open>r\<close>.
\<close>

theorem observe_weighted_choice:
  assumes cell: "cellAt w y x = Some cell"
    and nonempty: "toArray cell \<noteq> []"
    and positive: "\<forall>i\<in>set (toArray cell). i < length weights \<and> 0 < weights ! i"
    and draw: "r \<le> real (\<Sum>i\<leftarrow>toArray cell. weights ! i)"
  shows "\<exists>p. observe_with y x weights r w = Inr (setCell w y x (setBit (clear cell) p))
     \<and> p \<in> set (toArray cell)
     \<and> toArray (setBit (clear cell) p) = [p]
     \<and> r \<le> real (cumulativeWeight weights (toArray cell) p)
     \<and> (\<forall>q\<in>set (toArray cell). q < p \<longrightarrow> real (cumulativeWeight weights (toArray cell) q) < r)"
proof -
  let ?S = "toArray cell" and ?f = "(!) weights"
  from positive have lw: "lookupWeights weights ?S = Some (map ?f ?S)"
    by (intro lookupWeights_in_range) simp
  from draw have "r \<le> 0 + real (sum_list (map ?f ?S))" by simp
  from pick_exists[OF nonempty this] obtain p where p: "pick r 0 (zip ?S (map ?f ?S)) = Some p" ..
  from pick_first[OF sorted_toArray distinct_toArray p]
  have mem: "p \<in> set ?S" and ge: "r \<le> real (cumulativeWeight weights ?S p)"
    and lt: "\<forall>q\<in>set ?S. q < p \<longrightarrow> real (cumulativeWeight weights ?S q) < r"
    by (simp_all add: cumulativeWeight_def)
  from mem have "p < length cell" by (simp add: set_toArray)
  then have single: "toArray (setBit (clear cell) p) = [p]" by (rule toArray_single)
  have "observe_with y x weights r w = Inr (setCell w y x (setBit (clear cell) p))"
    using cell lw p by (simp add: observe_with_def)
  with mem single ge lt show ?thesis by blast
qed

lemmas solver_eval = cellAt_def js_nth_def setCell_def toArray_def setBit_def clear_def newBitmask_def
  combineWith_def bitmask_AND_def bitmask_EQUALS_def isEmpty_def createCopy_def DIRECTIONS_def
  initializeWaveMatrix_def randomIndex_def zero_draws_def eval_nat_numeral Let_def





lemma stripe_observe:
  "observe 0 0 [4, 2] (zero_draws 2) [[[True, True], [True, True]]] = Inr [[[True, False], [True, True]]]"
  by (simp add: observe_def solver_eval)

lemma stripe_propagate:
  "propagate 0 0
     [[[False, False], [False, False], [False, True], [False, True]],
      [[False, False], [False, False], [True, False], [True, False]]]
     [[[True, False], [True, True]]] = Some (Inr (False, [[[True, False], [False, True]]]))"
  unfolding propagate_def
  apply (subst propagate_loop.simps)
  apply (simp add: solver_eval propagate_dirs.simps)
  apply (subst propagate_loop.simps)
  apply (simp add: solver_eval propagate_dirs.simps)
  apply (subst propagate_loop.simps)
  apply simp
  done

lemma stripe_least:
  "getLeastEntropyUnsolvedCellPosition [4, 2] (zero_draws (2 + 1)) [[[True, False], [False, True]]] = Inr (-1, -1)"
  by (simp add: getLeastEntropyUnsolvedCellPosition_def scanEntropy.simps getShannonEntropy_def solver_eval)

text \<open>
  Claim C2 on the patterns, weights and adjacencies learned from the striped image, with
  the two cells of a \<open>2 \<times> 1\<close> output both preset to pattern 0, which cannot sit next to
  itself horizontally: \<^verbatim>\<open>solve\<close> never reads \<^verbatim>\<open>setTiles\<close>, reports success and leaves
  pattern 1 in the second cell.
\<close>

theorem presets_ignored:
  "solve [[[Some 0, Some 1], [Some 0, Some 1]], [[Some 1, Some 0], [Some 1, Some 0]]] [4, 2]
     [[[False, False], [False, False], [False, True], [False, True]],
      [[False, False], [False, False], [True, False], [True, False]]]
     [(0, 0, [True, False]), (1, 0, [True, False])] 2 1 10 zero_draws
   = Some (Inr (True, [[[True, False], [False, True]]]))"
proof -
  have w0: "initializeWaveMatrix 2 2 1 = [[[True, True], [True, True]]]" by (simp add: solver_eval)
  have "solve_loop 2 [4, 2]
     [[[False, False], [False, False], [False, True], [False, True]],
      [[False, False], [False, False], [True, False], [True, False]]] 2 1 10 zero_draws
      [[[True, True], [True, True]]] 0 0 1 2
      = Some (Inr (True, [[[True, False], [False, True]]]))"
    by (rule solve_loop_solved[where random = zero_draws and n = 2,
          OF _ stripe_observe stripe_propagate stripe_least]) simp
  moreover have "length [[[Some (0::int), Some 1], [Some 0, Some 1]], [[Some 1, Some 0], [Some 1, Some 0]]] = 2"
    by simp
  moreover have "randomIndex (zero_draws 0) 1 = 0" "randomIndex (zero_draws 1) 2 = 0"
    by (simp_all add: randomIndex_def zero_draws_def)
  ultimately show ?thesis by (simp only: solve_def w0)
qed


lemma propagate_result:
  "\<exists>r. propagate y x A w = Some r \<and>
       (\<forall>b w'. r = Inr (b, w') \<longrightarrow> cells_shrink w w' \<and> (all_nonempty w \<longrightarrow> all_nonempty w'))"
  using propagate_loop_total[of A "[(y, x)]" w] unfolding propagate_def by blast

lemma solve_total:
  "\<exists>r. solve patterns weights adjacencies setTiles width height maxAttempts random = Some r \<and>
       (0 < length patterns \<longrightarrow> r \<noteq> Inl Contradiction \<and> (\<forall>b w. r = Inr (b, w) \<longrightarrow> all_nonempty w))"
  using solve_loop_total[of "length patterns" weights adjacencies width height maxAttempts random
      "initializeWaveMatrix (length patterns) width height"
      "randomIndex (random 0) height" "randomIndex (random 1) width" 1 2]
    initializeWaveMatrix_nonempty[of "length patterns" width height]
  unfolding solve_def by blast

text \<open>
  Claim C7. With at least one pattern, every mask in the wave matrix is nonempty at all
  times: after \<^verbatim>\<open>initializeWaveMatrix\<close>, after every \<^verbatim>\<open>observe\<close> and after every
  \<^verbatim>\<open>propagate\<close>, also one that reports a contradiction; \<^verbatim>\<open>getShannonEntropy\<close> raises
  (always \<open>Contradiction\<close>) exactly for an empty possibility set; and \<^verbatim>\<open>solve\<close> returns,
  never with the error \<open>Contradiction\<close>, leaving a wave of nonempty masks.
\<close>

theorem contradiction_never_raised:
  assumes "0 < length patterns"
  shows "all_nonempty (initializeWaveMatrix (length patterns) width height)
    \<and> (\<forall>y x r w w1. all_nonempty w \<longrightarrow> observe y x weights r w = Inr w1 \<longrightarrow> all_nonempty w1)
    \<and> (\<forall>y x w b w'. all_nonempty w \<longrightarrow> propagate y x adjacencies w = Some (Inr (b, w'))
          \<longrightarrow> all_nonempty w')
    \<and> (\<forall>cell e. getShannonEntropy cell weights = Inl e \<longleftrightarrow> e = Contradiction \<and> toArray cell = [])
    \<and> (\<exists>r. solve patterns weights adjacencies setTiles width height maxAttempts random = Some r
          \<and> r \<noteq> Inl Contradiction \<and> (\<forall>b w. r = Inr (b, w) \<longrightarrow> all_nonempty w))"
proof (intro conjI)
  show "all_nonempty (initializeWaveMatrix (length patterns) width height)"
    using assms by (rule initializeWaveMatrix_nonempty)
  show "\<forall>y x r w w1. all_nonempty w \<longrightarrow> observe y x weights r w = Inr w1 \<longrightarrow> all_nonempty w1"
    using observe_nonempty by blast
  show "\<forall>y x w b w'. all_nonempty w \<longrightarrow> propagate y x adjacencies w = Some (Inr (b, w'))
          \<longrightarrow> all_nonempty w'"
  proof (intro allI impI)
    fix y x w b w'
    assume ne: "all_nonempty w" and run: "propagate y x adjacencies w = Some (Inr (b, w'))"
    from propagate_result[of y x adjacencies w] run ne show "all_nonempty w'" by auto
  qed
  show "\<forall>cell e. getShannonEntropy cell weights = Inl e \<longleftrightarrow> e = Contradiction \<and> toArray cell = []"
    by (simp add: getShannonEntropy_Contradiction)
  show "\<exists>r. solve patterns weights adjacencies setTiles width height maxAttempts random = Some r
          \<and> r \<noteq> Inl Contradiction \<and> (\<forall>b w. r = Inr (b, w) \<longrightarrow> all_nonempty w)"
    using solve_total[of patterns weights adjacencies setTiles width height maxAttempts random] assms
    by blast
qed

theorem contradiction_never_raised_witness:
  "0 < length [[[Some (0::int)]]]
   \<and> all_nonempty (initializeWaveMatrix (length [[[Some (0::int)]]]) 1 1)
   \<and> solve [[[Some 0]]] [1] [[[False], [False], [False], [False]]] [] 1 1 1 zero_draws
        \<noteq> Some (Inl Contradiction)"
proof -
  have p: "0 < length [[[Some (0::int)]]]" by simp
  note t = contradiction_never_raised[OF p, of 1 1 "[1]" "[[[False], [False], [False], [False]]]" "[]" 1 zero_draws]
  from t have a: "all_nonempty (initializeWaveMatrix (length [[[Some (0::int)]]]) 1 1)"
    by (rule conjunct1)
  from t obtain r where "solve [[[Some 0]]] [1] [[[False], [False], [False], [False]]] [] 1 1 1 zero_draws = Some r"
    "r \<noteq> Inl Contradiction" by (elim conjE exE)
  then have "solve [[[Some 0]]] [1] [[[False], [False], [False], [False]]] [] 1 1 1 zero_draws
        \<noteq> Some (Inl Contradiction)" by simp
  with p a show ?thesis by (intro conjI)
qed




theorem observe_weighted_choice_witness:
  "cellAt [[[True, True, True]]] 0 0 = Some [True, True, True]
   \<and> toArray [True, True, True] = [0, 1, 2]
   \<and> 0 < [1, 1, 1 :: nat] ! 0 \<and> 0 < [1, 1, 1 :: nat] ! 1 \<and> 0 < [1, 1, 1 :: nat] ! 2
   \<and> (0::real) \<le> 1 \<and> (1::real) < real (\<Sum>i\<leftarrow>[0, 1, 2]. [1, 1, 1 :: nat] ! i)
   \<and> observe_with 0 0 [1, 1, 1] 1 [[[True, True, True]]] = Inr [[[True, False, False]]]"
proof -
  let ?cell = "[True, True, True]" and ?ws = "[1, 1, 1 :: nat]"
  have c: "cellAt [[?cell]] 0 0 = Some ?cell" by (simp add: solver_eval)
  have s: "toArray ?cell = [0, 1, 2]" by (simp add: solver_eval)
  have n: "toArray ?cell \<noteq> []" by (simp add: s)
  have w: "\<forall>i\<in>set (toArray ?cell). i < length ?ws \<and> 0 < ?ws ! i"
    by (simp add: s)
  have r: "(1::real) \<le> real (\<Sum>i\<leftarrow>toArray ?cell. ?ws ! i)" by (simp add: s)
  from observe_weighted_choice[OF c n w r] obtain p where
    ob: "observe_with 0 0 ?ws 1 [[?cell]] = Inr (setCell [[?cell]] 0 0 (setBit (clear ?cell) p))"
    and mem: "p \<in> set (toArray ?cell)"
    and lt: "\<forall>q\<in>set (toArray ?cell). q < p \<longrightarrow> real (cumulativeWeight ?ws (toArray ?cell) q) < 1"
    by blast
  have "p = 0"
  proof (rule ccontr)
    assume "p \<noteq> 0"
    then have "0 < p" by simp
    moreover have "0 \<in> set (toArray ?cell)" by (simp add: s)
    ultimately have "real (cumulativeWeight ?ws (toArray ?cell) 0) < 1" using lt by blast
    then show False by (simp add: s cumulativeWeight_def)
  qed
  with ob have "observe_with 0 0 ?ws 1 [[?cell]] = Inr [[[True, False, False]]]"
    by (simp add: setCell_def setBit_def clear_def)
  with c s show ?thesis by simp
qed

text \<open>The result of solve is the same for every list of preset tiles.\<close>

lemma solve_ignores_setTiles:
  "solve patterns weights adjacencies setTiles width height maxAttempts random =
   solve patterns weights adjacencies [] width height maxAttempts random"
  by (simp add: solve_def)

section \<open>Confluence of propagation\<close>

lemma mask_le_refl: "mask_le a a"
  by (simp add: mask_le_def)

lemma mask_le_trans: "mask_le a b \<Longrightarrow> mask_le b c \<Longrightarrow> mask_le a c"
  by (auto simp: mask_le_def)

lemma mask_le_antisym: "mask_le a b \<Longrightarrow> mask_le b a \<Longrightarrow> a = b"
  unfolding mask_le_def by (intro nth_equalityI) auto

lemma mask_le_sandwich: "mask_le a b \<Longrightarrow> mask_le b c \<Longrightarrow> a = c \<Longrightarrow> b = c"
  using mask_le_antisym by blast

lemma wave_le_refl: "wave_le w w"
  by (simp add: wave_le_def mask_le_refl)

lemma wave_le_trans: "wave_le u v \<Longrightarrow> wave_le v w \<Longrightarrow> wave_le u w"
  unfolding wave_le_def by (auto; meson mask_le_trans)

lemma wave_le_antisym:
  assumes "wave_le v w" "wave_le w v"
  shows "v = w"
proof (rule nth_equalityI)
  show "length v = length w" using assms(1) by (simp add: wave_le_def)
next
  fix y assume y: "y < length v"
  with assms have yw: "y < length w" by (simp add: wave_le_def)
  show "v ! y = w ! y"
  proof (rule nth_equalityI)
    show "length (v ! y) = length (w ! y)" using assms(1) yw by (simp add: wave_le_def)
  next
    fix x assume "x < length (v ! y)"
    with assms yw y have "mask_le (v ! y ! x) (w ! y ! x)" "mask_le (w ! y ! x) (v ! y ! x)"
      by (simp_all add: wave_le_def)
    then show "v ! y ! x = w ! y ! x" by (rule mask_le_antisym)
  qed
qed

lemma cellAt_iff:
  "cellAt w y x = Some c \<longleftrightarrow>
     0 \<le> y \<and> nat y < length w \<and> 0 \<le> x \<and> nat x < length (w ! nat y) \<and> c = w ! nat y ! nat x"
  by (auto simp: cellAt_def js_nth_def split: option.splits)

lemma wave_le_cell:
  assumes "wave_le v w"
  shows "(cell_of w c = None \<longrightarrow> cell_of v c = None) \<and>
         (\<forall>wc. cell_of w c = Some wc \<longrightarrow> (\<exists>vc. cell_of v c = Some vc \<and> mask_le vc wc))"
proof (cases "cell_of w c")
  case None
  then have "\<not> (0 \<le> fst c \<and> nat (fst c) < length w \<and> 0 \<le> snd c \<and> nat (snd c) < length (w ! nat (fst c)))"
    by (auto simp: cell_of_def cellAt_def js_nth_def split: option.splits if_splits)
  with assms have "cell_of v c = None"
    by (auto simp: cell_of_def cellAt_def js_nth_def wave_le_def split: option.splits)
  with None show ?thesis by simp
next
  case (Some wc)
  then have b: "0 \<le> fst c" "nat (fst c) < length w" "0 \<le> snd c" "nat (snd c) < length (w ! nat (fst c))"
    and wc: "wc = w ! nat (fst c) ! nat (snd c)"
    by (simp_all add: cell_of_def cellAt_iff)
  with assms have "cell_of v c = Some (v ! nat (fst c) ! nat (snd c))"
    and "mask_le (v ! nat (fst c) ! nat (snd c)) wc"
    by (simp_all add: cell_of_def cellAt_iff wave_le_def)
  with Some show ?thesis by simp
qed

lemma wave_le_cell_Some:
  "wave_le v w \<Longrightarrow> cell_of w c = Some wc \<Longrightarrow> \<exists>vc. cell_of v c = Some vc \<and> mask_le vc wc"
  using wave_le_cell by blast

lemma wave_le_cell_Some':
  assumes "wave_le v w" "cell_of v c = Some vc"
  shows "\<exists>wc. cell_of w c = Some wc \<and> mask_le vc wc"
proof (cases "cell_of w c")
  case None
  with wave_le_cell[OF assms(1), of c] assms(2) show ?thesis by simp
next
  case (Some wc)
  with wave_le_cell[OF assms(1), of c] assms(2) show ?thesis by auto
qed

lemma cellAt_eq:
  "cellAt w y x =
     (if 0 \<le> y \<and> nat y < length w \<and> 0 \<le> x \<and> nat x < length (w ! nat y)
      then Some (w ! nat y ! nat x) else None)"
  by (auto simp: cellAt_def js_nth_def split: option.splits)

lemma cell_of_setCell:
  assumes "cellAt w y x = Some c"
  shows "cell_of (setCell w y x m) d = (if d = (y, x) then Some m else cell_of w d)"
proof -
  from assms have b: "0 \<le> y" "nat y < length w" "0 \<le> x" "nat x < length (w ! nat y)"
    by (simp_all add: cellAt_iff)
  obtain y' x' where d: "d = (y', x')" by (cases d)
  have len: "length (setCell w y x m) = length w" by (simp add: setCell_def)
  have row: "setCell w y x m ! a = (if a = nat y then (w ! nat y)[nat x := m] else w ! a)"
    if "a < length w" for a
    using that by (simp add: setCell_def nth_list_update)
  show ?thesis
  proof (cases "0 \<le> y' \<and> nat y' < length w \<and> 0 \<le> x'")
    case False
    then show ?thesis using b d len by (auto simp: cell_of_def cellAt_eq)
  next
    case True
    then have r: "setCell w y x m ! nat y' = (if nat y' = nat y then (w ! nat y)[nat x := m] else w ! nat y')"
      using row by blast
    from True b have eqy: "nat y' = nat y \<longleftrightarrow> y' = y" and eqx: "nat x' = nat x \<longleftrightarrow> x' = x" by auto
    show ?thesis
    proof (cases "y' = y")
      case False
      with True r eqy d len show ?thesis by (simp add: cell_of_def cellAt_eq)
    next
      case yy: True
      with r have r': "setCell w y x m ! nat y' = (w ! nat y)[nat x := m]" by simp
      show ?thesis
      proof (cases "x' = x")
        case True
        with yy b d len r' show ?thesis by (simp add: cell_of_def cellAt_eq)
      next
        case False
        with eqx have "nat x' \<noteq> nat x" by simp
        with yy b d len r' False True show ?thesis by (simp add: cell_of_def cellAt_eq)
      qed
    qed
  qed
qed

lemma wave_le_setCell:
  assumes "cellAt w y x = Some c" "mask_le m c"
  shows "wave_le (setCell w y x m) w"
proof -
  from assms(1) have b: "nat y < length w" "nat x < length (w ! nat y)" and c: "c = w ! nat y ! nat x"
    by (simp_all add: cellAt_iff)
  have "mask_le (setCell w y x m ! a ! e) (w ! a ! e)" if "a < length w" "e < length (w ! a)" for a e
    using that b c assms(2) unfolding setCell_def
    by (cases "a = nat y"; cases "e = nat x") (simp_all add: nth_list_update mask_le_refl)
  moreover have "length (setCell w y x m ! a) = length (w ! a)" if "a < length w" for a
    using that unfolding setCell_def by (cases "a = nat y") (simp_all add: nth_list_update)
  ultimately show ?thesis by (simp add: wave_le_def setCell_def)
qed

lemma wave_ok_le:
  assumes "wave_ok P w" "wave_le v w"
  shows "wave_ok P v"
  unfolding wave_ok_def
proof (intro ballI conjI)
  fix row assume "row \<in> set v"
  then obtain y where y: "y < length v" "row = v ! y" by (auto simp: in_set_conv_nth)
  with assms(2) have yw: "y < length w" and len: "length (v ! y) = length (w ! y)"
    by (simp_all add: wave_le_def)
  from yw have w0: "0 < length w" by (cases w) simp_all
  from assms(1) yw have "length (w ! y) = length (w ! 0)" by (simp add: wave_ok_def)
  moreover from assms(2) w0 have "length (v ! 0) = length (w ! 0)" by (simp add: wave_le_def)
  ultimately show "length row = length (v ! 0)" using len y by simp
  fix cell assume "cell \<in> set row"
  then obtain x where x: "x < length (v ! y)" "cell = v ! y ! x" using y by (auto simp: in_set_conv_nth)
  with assms(2) yw len have "mask_le cell (w ! y ! x)" by (simp add: wave_le_def)
  moreover have "length (w ! y ! x) = P"
  proof -
    from yw x len have "w ! y \<in> set w" "w ! y ! x \<in> set (w ! y)" by simp_all
    with assms(1) show ?thesis unfolding wave_ok_def by blast
  qed
  ultimately show "length cell = P" by (simp add: mask_le_def)
qed

lemma wave_ok_cell:
  assumes "wave_ok P w" "cell_of w c = Some wc"
  shows "length wc = P"
proof -
  from assms(2) have b: "nat (fst c) < length w" "nat (snd c) < length (w ! nat (fst c))"
    and wc: "wc = w ! nat (fst c) ! nat (snd c)"
    by (simp_all add: cell_of_def cellAt_iff)
  from b have "w ! nat (fst c) \<in> set w" "wc \<in> set (w ! nat (fst c))" unfolding wc by simp_all
  with assms(1) show ?thesis unfolding wave_ok_def by blast
qed

lemma wave_ok_bounds:
  "wave_ok P w \<Longrightarrow> out_of_bounds w y x \<longleftrightarrow> cellAt w y x = None"
  by (cases "cellAt w y x")
     (auto simp: wave_ok_def out_of_bounds_def cellAt_def js_nth_def split: option.splits if_splits)

lemma combineWith_nth:
  "b < length acc \<Longrightarrow> length m = length acc \<Longrightarrow> combineWith acc m ! b = (acc ! b \<or> m ! b)"
  by (simp add: combineWith_def)

lemma combineWith_length: "length (combineWith acc m) = length acc"
  by (simp add: combineWith_def)

lemma combineAdjacent_InrD:
  assumes "adj_ok A" "k < 4"
  shows "length acc = length A \<Longrightarrow> combineAdjacent A k S acc = Inr m \<Longrightarrow>
    length m = length A \<and> (\<forall>b<length A. m ! b = (acc ! b \<or> (\<exists>i\<in>set S. A ! i ! k ! b)))"
proof (induction S arbitrary: acc)
  case Nil
  then show ?case by simp
next
  case (Cons i S)
  from Cons.prems(2) have i: "i < length A"
    by (auto simp: js_nth_def split: option.splits if_splits)
  with assms have kl: "k < length (A ! i)" and ml: "length (A ! i ! k) = length A"
    by (simp_all add: adj_ok_def)
  from i kl have "js_nth A (int i) = Some (A ! i)" "js_nth (A ! i) (int k) = Some (A ! i ! k)"
    by (simp_all add: js_nth_def)
  with Cons.prems(2) have run: "combineAdjacent A k S (combineWith acc (A ! i ! k)) = Inr m" by simp
  have "length (combineWith acc (A ! i ! k)) = length A"
    using Cons.prems(1) by (simp add: combineWith_length)
  from Cons.IH[OF this run]
  have len: "length m = length A"
    and bits: "\<forall>b<length A. m ! b = (combineWith acc (A ! i ! k) ! b \<or> (\<exists>i\<in>set S. A ! i ! k ! b))"
    by simp_all
  have "m ! b = (acc ! b \<or> (\<exists>j\<in>set (i # S). A ! j ! k ! b))" if "b < length A" for b
    using bits that combineWith_nth[of b acc "A ! i ! k"] Cons.prems(1) ml by auto
  with len show ?case by blast
qed

lemma supports_toArray: "supports A cell k b \<longleftrightarrow> (\<exists>i\<in>set (toArray cell). A ! i ! k ! b)"
  by (auto simp: supports_def set_toArray)

lemma supports_mono: "mask_le vc wc \<Longrightarrow> supports A vc k b \<Longrightarrow> supports A wc k b"
  by (auto simp: supports_def mask_le_def)

lemma revise_facts:
  assumes "adj_ok A" "k < 4" "length cell2 = length A"
    and "combineAdjacent A k (toArray cell1) (newBitmask (length A)) = Inr adjm"
  shows "length (bitmask_AND cell2 adjm) = length A"
    and "mask_le (bitmask_AND cell2 adjm) cell2"
    and "\<forall>b<length A. bitmask_AND cell2 adjm ! b = (cell2 ! b \<and> supports A cell1 k b)"
proof -
  have "length (newBitmask (length A)) = length A" by (simp add: newBitmask_def)
  from combineAdjacent_InrD[OF assms(1,2) this assms(4)]
  have len: "length adjm = length A" and bits: "\<forall>b<length A. adjm ! b = supports A cell1 k b"
    by (simp_all add: newBitmask_def supports_toArray)
  show "length (bitmask_AND cell2 adjm) = length A" using len assms(3) by (simp add: length_AND)
  show "mask_le (bitmask_AND cell2 adjm) cell2"
    using len assms(3) by (simp add: mask_le_def length_AND nth_AND)
  show "\<forall>b<length A. bitmask_AND cell2 adjm ! b = (cell2 ! b \<and> supports A cell1 k b)"
    using len assms(3) bits by (simp add: nth_AND)
qed

lemma propagate_dirs_le:
  assumes ok: "adj_ok A" "wave_ok (length A) w" "\<forall>k\<in>set ks. k < 4"
    and run: "propagate_dirs A (toArray cell1) y1 x1 ks w q = Inr (b, w', q')"
  shows "wave_le w' w"
proof (rule propagate_dirs_rule[OF run, where I = "\<lambda>u r. wave_le u w"])
  show "wave_le w w" by (rule wave_le_refl)
next
  fix k u and r :: "(int \<times> int) list" and y2 x2 cell2 adjm
  assume I: "wave_le u w" and k: "k \<in> set ks" and c2: "cellAt u y2 x2 = Some cell2"
    and adjm: "combineAdjacent A k (toArray cell1) (newBitmask (length A)) = Inr adjm"
  from wave_ok_le[OF ok(2) I] c2 have "length cell2 = length A"
    using wave_ok_cell[of "length A" u "(y2, x2)" cell2] by (simp add: cell_of_def)
  from revise_facts(2)[OF ok(1) _ this adjm] ok(3) k
  have "mask_le (bitmask_AND cell2 adjm) cell2" by blast
  from wave_le_setCell[OF c2 this] I
  show "wave_le (setCell u y2 x2 (bitmask_AND cell2 adjm)) w" by (rule wave_le_trans)
qed

lemma direction_nonzero: "k < 4 \<Longrightarrow> DIRECTIONS ! k \<noteq> (0, 0)"
  by (auto simp: DIRECTIONS_def less_Suc_eq numeral_eq_Suc)

lemma nbr_neq: "k < 4 \<Longrightarrow> nbr c k \<noteq> c"
  using direction_nonzero[of k] by (cases c; cases "DIRECTIONS ! k") (auto simp: nbr_def)

lemma propagate_dirs_center:
  assumes "\<forall>k\<in>set ks. k < 4"
    and run: "propagate_dirs A S (fst c) (snd c) ks w q = Inr (b, w', q')"
  shows "cell_of w' c = cell_of w c"
proof (rule propagate_dirs_rule[OF run, where I = "\<lambda>u r. cell_of u c = cell_of w c"])
  show "cell_of w c = cell_of w c" by simp
next
  fix k u and r :: "(int \<times> int) list" and y2 x2 cell2 adjm
  assume I: "cell_of u c = cell_of w c" and k: "k \<in> set ks"
    and y2: "y2 = fst c - fst (DIRECTIONS ! k)" and x2: "x2 = snd c - snd (DIRECTIONS ! k)"
    and c2: "cellAt u y2 x2 = Some cell2"
  from k assms(1) have "nbr c k \<noteq> c" by (simp add: nbr_neq)
  then have "c \<noteq> (y2, x2)" unfolding nbr_def y2 x2 by auto
  with cell_of_setCell[OF c2, of "bitmask_AND cell2 adjm" c] I
  show "cell_of (setCell u y2 x2 (bitmask_AND cell2 adjm)) c = cell_of w c" by simp
qed

lemma propagate_dirs_queue:
  assumes ok: "adj_ok A" "wave_ok (length A) w" "\<forall>k\<in>set ks. k < 4"
    and run: "propagate_dirs A (toArray cell1) y1 x1 ks w q = Inr (b, w', q')"
  shows "set q \<subseteq> set q' \<and> (\<forall>d. cell_of w' d \<noteq> cell_of w d \<longrightarrow> d \<in> set q')
       \<and> (\<forall>d\<in>set q'. d \<in> set q \<or> cell_of w' d \<noteq> cell_of w d)"
proof (rule propagate_dirs_rule[OF run, where I = "\<lambda>u r. wave_le u w \<and> set q \<subseteq> set r \<and>
       (\<forall>d. cell_of u d \<noteq> cell_of w d \<longrightarrow> d \<in> set r) \<and>
       (\<forall>d\<in>set r. d \<in> set q \<or> cell_of u d \<noteq> cell_of w d)", THEN conjunct2])
  show "wave_le w w \<and> set q \<subseteq> set q \<and> (\<forall>d. cell_of w d \<noteq> cell_of w d \<longrightarrow> d \<in> set q) \<and>
       (\<forall>d\<in>set q. d \<in> set q \<or> cell_of w d \<noteq> cell_of w d)"
    by (simp add: wave_le_refl)
next
  fix k u and r :: "(int \<times> int) list" and y2 x2 cell2 adjm
  assume I: "wave_le u w \<and> set q \<subseteq> set r \<and>
       (\<forall>d. cell_of u d \<noteq> cell_of w d \<longrightarrow> d \<in> set r) \<and>
       (\<forall>d\<in>set r. d \<in> set q \<or> cell_of u d \<noteq> cell_of w d)"
    and k: "k \<in> set ks" and c2: "cellAt u y2 x2 = Some cell2"
    and adjm: "combineAdjacent A k (toArray cell1) (newBitmask (length A)) = Inr adjm"
    and neq: "bitmask_AND cell2 adjm \<noteq> cell2"
  let ?new = "bitmask_AND cell2 adjm" and ?n = "(y2, x2)"
  let ?u' = "setCell u y2 x2 ?new"
  from I have le: "wave_le u w" by simp
  from wave_ok_le[OF ok(2) le] c2 have "length cell2 = length A"
    using wave_ok_cell[of "length A" u ?n cell2] by (simp add: cell_of_def)
  from revise_facts(2)[OF ok(1) _ this adjm] ok(3) k
  have mle: "mask_le ?new cell2" by blast
  have le': "wave_le ?u' w" using wave_le_setCell[OF c2 mle] le by (rule wave_le_trans)
  note upd = cell_of_setCell[OF c2, of ?new]
  from c2 have cu: "cell_of u ?n = Some cell2" by (simp add: cell_of_def)
  from wave_le_cell_Some'[OF le cu] obtain wn where wn: "cell_of w ?n = Some wn" "mask_le cell2 wn"
    by blast
  have changed: "cell_of ?u' ?n \<noteq> cell_of w ?n"
  proof
    assume "cell_of ?u' ?n = cell_of w ?n"
    with upd[of ?n] wn(1) have "?new = wn" by simp
    from mask_le_sandwich[OF mle wn(2) this] have "cell2 = wn" .
    with \<open>?new = wn\<close> neq show False by simp
  qed
  have "\<forall>d. cell_of ?u' d \<noteq> cell_of w d \<longrightarrow> d \<in> set (r @ [?n])"
    using I upd by auto
  moreover have "\<forall>d\<in>set (r @ [?n]). d \<in> set q \<or> cell_of ?u' d \<noteq> cell_of w d"
  proof
    fix d assume d: "d \<in> set (r @ [?n])"
    show "d \<in> set q \<or> cell_of ?u' d \<noteq> cell_of w d"
    proof (cases "d = ?n")
      case True
      with changed show ?thesis by simp
    next
      case False
      with d have "d \<in> set r" by simp
      with I have "d \<in> set q \<or> cell_of u d \<noteq> cell_of w d" by blast
      with upd[of d] False show ?thesis by simp
    qed
  qed
  moreover have "set q \<subseteq> set (r @ [?n])" using I by auto
  ultimately show "wave_le ?u' w \<and> set q \<subseteq> set (r @ [?n]) \<and>
       (\<forall>d. cell_of ?u' d \<noteq> cell_of w d \<longrightarrow> d \<in> set (r @ [?n])) \<and>
       (\<forall>d\<in>set (r @ [?n]). d \<in> set q \<or> cell_of ?u' d \<noteq> cell_of w d)"
    using le' by blast
qed

lemma propagate_dirs_lower_bound:
  assumes ok: "adj_ok A" "wave_ok (length A) w" "\<forall>k\<in>set ks. k < 4"
    and c1: "cell_of w c = Some cell1"
    and run: "propagate_dirs A (toArray cell1) (fst c) (snd c) ks w q = Inr (b, w', q')"
    and v: "wave_le v w" "closed_at A v c"
  shows "wave_le v w'"
proof (rule propagate_dirs_rule[OF run, where I = "\<lambda>u r. wave_le u w \<and> wave_le v u", THEN conjunct2])
  show "wave_le w w \<and> wave_le v w" using v(1) by (simp add: wave_le_refl)
next
  fix k u and r :: "(int \<times> int) list" and y2 x2 cell2 adjm
  assume I: "wave_le u w \<and> wave_le v u" and k: "k \<in> set ks"
    and y2: "y2 = fst c - fst (DIRECTIONS ! k)" and x2: "x2 = snd c - snd (DIRECTIONS ! k)"
    and c2: "cellAt u y2 x2 = Some cell2"
    and adjm: "combineAdjacent A k (toArray cell1) (newBitmask (length A)) = Inr adjm"
  let ?new = "bitmask_AND cell2 adjm" and ?n = "(y2, x2)"
  let ?u' = "setCell u y2 x2 ?new"
  from k ok(3) have k4: "k < 4" by simp
  from I have le: "wave_le u w" and vu: "wave_le v u" by simp_all
  have n: "?n = nbr c k" by (simp add: nbr_def y2 x2)
  from c2 have cu: "cell_of u ?n = Some cell2" by (simp add: cell_of_def)
  from wave_ok_le[OF ok(2) le] cu have l2: "length cell2 = length A" by (rule wave_ok_cell)
  note rf = revise_facts[OF ok(1) k4 l2 adjm]
  from wave_le_cell_Some[OF vu cu] obtain vn where vn: "cell_of v ?n = Some vn" "mask_le vn cell2"
    by blast
  from wave_le_cell_Some[OF v(1) c1] obtain vc where vc: "cell_of v c = Some vc" "mask_le vc cell1"
    by blast
  have "mask_le vn ?new"
    unfolding mask_le_def
  proof (intro conjI allI impI)
    show "length vn = length ?new" using vn(2) rf(1) l2 by (simp add: mask_le_def)
  next
    fix i assume i: "i < length vn" and bit: "vn ! i"
    from vn(2) i l2 have iA: "i < length A" by (simp add: mask_le_def)
    from vn(2) i bit have "cell2 ! i" by (simp add: mask_le_def)
    moreover from v(2) vc(1) vn(1) k4 i bit have "supports A vc k i"
      unfolding closed_at_def n by blast
    then have "supports A cell1 k i" using vc(2) by (rule supports_mono[rotated])
    ultimately show "?new ! i" using rf(3) iA by simp
  qed
  have "wave_le v ?u'"
    unfolding wave_le_def
  proof (intro conjI allI impI)
    show "length v = length ?u'" using vu by (simp add: wave_le_def setCell_def)
  next
    fix y assume y: "y < length ?u'"
    then have yu: "y < length u" by (simp add: setCell_def)
    show "length (v ! y) = length (?u' ! y)"
      using vu yu unfolding wave_le_def setCell_def
      by (cases "y = nat y2") (simp_all add: nth_list_update)
  next
    fix y x assume y: "y < length ?u'" and x: "x < length (?u' ! y)"
    then have yu: "y < length u" by (simp add: setCell_def)
    from x yu have xu: "x < length (u ! y)"
      unfolding setCell_def by (cases "y = nat y2") (simp_all add: nth_list_update)
    let ?d = "(int y, int x)"
    from yu xu have du: "cell_of u ?d = Some (u ! y ! x)" by (simp add: cell_of_def cellAt_eq)
    from vu yu xu have dv: "cell_of v ?d = Some (v ! y ! x)"
      by (simp add: cell_of_def cellAt_eq wave_le_def)
    have du': "cell_of ?u' ?d = Some (?u' ! y ! x)"
      using y x by (simp add: cell_of_def cellAt_eq)
    show "mask_le (v ! y ! x) (?u' ! y ! x)"
    proof (cases "?d = ?n")
      case True
      with cell_of_setCell[OF c2, of ?new ?d] du' have "?u' ! y ! x = ?new" by simp
      moreover from True vn(1) dv have "v ! y ! x = vn" by simp
      ultimately show ?thesis using \<open>mask_le vn ?new\<close> by simp
    next
      case False
      with cell_of_setCell[OF c2, of ?new ?d] du du' have "?u' ! y ! x = u ! y ! x"
        by (auto split: if_splits)
      with vu yu xu show ?thesis by (simp add: wave_le_def)
    qed
  qed
  moreover have "wave_le ?u' w" using wave_le_setCell[OF c2 rf(2)] le by (rule wave_le_trans)
  ultimately show "wave_le ?u' w \<and> wave_le v ?u'" by simp
qed

lemma wave_le_supported:
  assumes "wave_le w' u" "cell_of u d = Some n" "\<forall>b<length n. n ! b \<longrightarrow> Q b" "cell_of w' d = Some n'"
  shows "\<forall>b<length n'. n' ! b \<longrightarrow> Q b"
proof -
  from wave_le_cell_Some[OF assms(1,2)] assms(4) have "mask_le n' n" by simp
  with assms(3) show ?thesis by (auto simp: mask_le_def)
qed

lemma propagate_dirs_closed:
  assumes ok: "adj_ok A" and len: "length cell1 = length A"
  shows "wave_ok (length A) w \<Longrightarrow> \<forall>k\<in>set ks. k < 4 \<Longrightarrow>
    propagate_dirs A (toArray cell1) (fst c) (snd c) ks w q = Inr (False, w', q') \<Longrightarrow>
    \<forall>k\<in>set ks. \<forall>n. cell_of w' (nbr c k) = Some n \<longrightarrow> (\<forall>b<length n. n ! b \<longrightarrow> supports A cell1 k b)"
proof (induction ks arbitrary: w q)
  case Nil
  then show ?case by simp
next
  case (Cons k ks)
  from Cons.prems(2) have k4: "k < 4" and ks4: "\<forall>k\<in>set ks. k < 4" by simp_all
  let ?y2 = "fst c - fst (DIRECTIONS ! k)" and ?x2 = "snd c - snd (DIRECTIONS ! k)"
  have n: "nbr c k = (?y2, ?x2)" by (simp add: nbr_def)
  show ?case
  proof (cases "out_of_bounds w ?y2 ?x2")
    case True
    note run = Cons.prems(3)[unfolded propagate_dirs_skip[OF True]]
    from True Cons.prems(1) have none: "cell_of w (nbr c k) = None"
      by (simp add: wave_ok_bounds cell_of_def n)
    from propagate_dirs_le[OF ok Cons.prems(1) ks4 run] have "wave_le w' w" .
    with none have "cell_of w' (nbr c k) = None" using wave_le_cell by blast
    with Cons.IH[OF Cons.prems(1) ks4 run] show ?thesis by simp
  next
    case False
    note vis = propagate_dirs_visit[OF False, of A "toArray cell1" ks q]
    from Cons.prems(3)[unfolded vis] obtain cell2 adjm where c2: "cellAt w ?y2 ?x2 = Some cell2"
      and adjm: "combineAdjacent A k (toArray cell1) (newBitmask (length A)) = Inr adjm"
      by (auto split: option.splits sum.splits)
    let ?new = "bitmask_AND cell2 adjm"
    from Cons.prems(3)[unfolded vis] c2 adjm have ne: "\<not> isEmpty ?new" by (auto split: if_splits)
    from c2 have cw: "cell_of w (nbr c k) = Some cell2" by (simp add: cell_of_def n)
    from wave_ok_cell[OF Cons.prems(1) cw] have l2: "length cell2 = length A" .
    note rf = revise_facts[OF ok k4 l2 adjm]
    have sup: "\<forall>b<length ?new. ?new ! b \<longrightarrow> supports A cell1 k b" using rf(1,3) by simp
    show ?thesis
    proof (cases "?new = cell2")
      case True
      with Cons.prems(3)[unfolded vis] c2 adjm ne
      have run: "propagate_dirs A (toArray cell1) (fst c) (snd c) ks w q = Inr (False, w', q')" by simp
      from propagate_dirs_le[OF ok Cons.prems(1) ks4 run] have le: "wave_le w' w" .
      have "\<forall>n. cell_of w' (nbr c k) = Some n \<longrightarrow> (\<forall>b<length n. n ! b \<longrightarrow> supports A cell1 k b)"
        using wave_le_supported[OF le cw] sup True by auto
      with Cons.IH[OF Cons.prems(1) ks4 run] show ?thesis by simp
    next
      case False
      let ?w1 = "setCell w ?y2 ?x2 ?new"
      from False Cons.prems(3)[unfolded vis] c2 adjm ne
      have run: "propagate_dirs A (toArray cell1) (fst c) (snd c) ks ?w1 (q @ [(?y2, ?x2)]) = Inr (False, w', q')"
        by simp
      have ok1: "wave_ok (length A) ?w1"
        using wave_ok_le[OF Cons.prems(1) wave_le_setCell[OF c2 rf(2)]] .
      from propagate_dirs_le[OF ok ok1 ks4 run] have le: "wave_le w' ?w1" .
      have c1: "cell_of ?w1 (nbr c k) = Some ?new" using cell_of_setCell[OF c2, of ?new "nbr c k"] n by simp
      have "\<forall>n. cell_of w' (nbr c k) = Some n \<longrightarrow> (\<forall>b<length n. n ! b \<longrightarrow> supports A cell1 k b)"
        using wave_le_supported[OF le c1 sup] by auto
      with Cons.IH[OF ok1 ks4 run] show ?thesis by simp
    qed
  qed
qed

lemma length_DIRECTIONS: "length DIRECTIONS = 4"
  by (simp add: DIRECTIONS_def)

lemma all_directions: "\<forall>k\<in>set [0..<length DIRECTIONS]. k < 4"
  by (simp only: length_DIRECTIONS set_upt) simp

lemma all_directions': "k < 4 \<Longrightarrow> k \<in> set [0..<length DIRECTIONS]"
  by (simp only: length_DIRECTIONS set_upt) simp

lemma sweep_step_facts:
  assumes ok: "adj_ok A" "wave_ok (length A) w" and step: "sweep_step A (Q, w) (Q', w')"
  shows "\<exists>c\<in>set Q. wave_le w' w \<and> closed_at A w' c
     \<and> (\<forall>d. cell_of w' d \<noteq> cell_of w d \<longrightarrow> d \<in> set Q')
     \<and> (\<forall>d\<in>set Q'. d \<in> set Q \<or> cell_of w' d \<noteq> cell_of w d)
     \<and> (\<forall>d\<in>set Q. d \<noteq> c \<longrightarrow> d \<in> set Q')
     \<and> (\<forall>v. wave_le v w \<longrightarrow> closed_at A v c \<longrightarrow> wave_le v w')"
  using step
proof (cases rule: sweep_step.cases)
  case (visit y1 x1 cell1 enqueued before after)
  let ?c = "(y1, x1)"
  note run = visit(3)
  from visit(2) have c1: "cell_of w ?c = Some cell1" by (simp add: cell_of_def)
  have run': "propagate_dirs A (toArray cell1) (fst ?c) (snd ?c) [0..<length DIRECTIONS] w [] = Inr (False, w', enqueued)"
    using run by simp
  from wave_ok_cell[OF ok(2) c1] have l1: "length cell1 = length A" .
  have le: "wave_le w' w" using propagate_dirs_le[OF ok all_directions run] .
  have center: "cell_of w' ?c = Some cell1"
    using propagate_dirs_center[OF all_directions run'] c1 by simp
  have closed: "closed_at A w' ?c"
    using propagate_dirs_closed[OF ok(1) l1 ok(2) all_directions run'] center all_directions'
    unfolding closed_at_def by auto
  from propagate_dirs_queue[OF ok all_directions run]
  have q1: "\<forall>d. cell_of w' d \<noteq> cell_of w d \<longrightarrow> d \<in> set enqueued"
    and q2: "\<forall>d\<in>set enqueued. cell_of w' d \<noteq> cell_of w d" by simp_all
  have lb: "\<forall>v. wave_le v w \<longrightarrow> closed_at A v ?c \<longrightarrow> wave_le v w'"
    using propagate_dirs_lower_bound[OF ok all_directions c1 run'] by blast
  have "?c \<in> set Q" using visit(1) by simp
  moreover have "\<forall>d. cell_of w' d \<noteq> cell_of w d \<longrightarrow> d \<in> set Q'" using q1 visit(4) by auto
  moreover have "\<forall>d\<in>set Q'. d \<in> set Q \<or> cell_of w' d \<noteq> cell_of w d"
    using q2 visit(1,4) by auto
  moreover have "\<forall>d\<in>set Q. d \<noteq> ?c \<longrightarrow> d \<in> set Q'" using visit(1,4) by auto
  ultimately show ?thesis using le closed lb by blast
qed

lemma changed_persists:
  assumes "wave_le w' w" "wave_le w w0" "cell_of w d \<noteq> cell_of w0 d \<or> cell_of w' d \<noteq> cell_of w d"
  shows "cell_of w' d \<noteq> cell_of w0 d"
proof (cases "cell_of w0 d")
  case None
  with wave_le_cell[OF assms(2), of d] have "cell_of w d = None" by simp
  with wave_le_cell[OF assms(1), of d] have "cell_of w' d = None" by simp
  with None \<open>cell_of w d = None\<close> assms(3) show ?thesis by simp
next
  case (Some c0)
  from wave_le_cell_Some[OF assms(2) Some] obtain cw where cw: "cell_of w d = Some cw" "mask_le cw c0"
    by blast
  from wave_le_cell_Some[OF assms(1) cw(1)] obtain c' where c': "cell_of w' d = Some c'" "mask_le c' cw"
    by blast
  show ?thesis
  proof
    assume "cell_of w' d = cell_of w0 d"
    with c'(1) Some have eq: "c' = c0" by simp
    from mask_le_sandwich[OF c'(2) cw(2) eq] have "cw = c0" .
    with eq cw(1) c'(1) Some assms(3) show False by simp
  qed
qed

lemma closed_at_shrink:
  assumes "wave_le w' w" "cell_of w' d = cell_of w d" "closed_at A w d"
  shows "closed_at A w' d"
  unfolding closed_at_def
proof (intro allI impI)
  fix vc k n b
  assume vc: "cell_of w' d = Some vc" and k: "k < 4" and n: "cell_of w' (nbr d k) = Some n"
    and b: "b < length n" and bit: "n ! b"
  from wave_le_cell_Some'[OF assms(1) n] obtain n0 where n0: "cell_of w (nbr d k) = Some n0" "mask_le n n0"
    by blast
  from n0(2) b bit have "b < length n0" "n0 ! b" by (simp_all add: mask_le_def)
  with assms(3) vc assms(2) k n0(1) show "supports A vc k b" unfolding closed_at_def by auto
qed

lemma run_inv_init: "run_inv A Q0 w0 (Q0, w0)"
  by (simp add: run_inv_def wave_le_refl)

lemma run_inv_step:
  assumes ok: "adj_ok A" "wave_ok (length A) w0"
    and inv: "run_inv A Q0 w0 (Q, w)" and step: "sweep_step A (Q, w) (Q', w')"
  shows "run_inv A Q0 w0 (Q', w')"
proof -
  from inv have le0: "wave_le w w0"
    and pend: "\<forall>d\<in>set Q. d \<in> set Q0 \<or> cell_of w d \<noteq> cell_of w0 d"
    and closed: "\<forall>d. (d \<in> set Q0 \<or> cell_of w d \<noteq> cell_of w0 d) \<longrightarrow> d \<notin> set Q \<longrightarrow> closed_at A w d"
    by (simp_all add: run_inv_def)
  from sweep_step_facts[OF ok(1) wave_ok_le[OF ok(2) le0] step] obtain c where c: "c \<in> set Q"
    and le: "wave_le w' w" and cc: "closed_at A w' c"
    and p3: "\<forall>d. cell_of w' d \<noteq> cell_of w d \<longrightarrow> d \<in> set Q'"
    and p4: "\<forall>d\<in>set Q'. d \<in> set Q \<or> cell_of w' d \<noteq> cell_of w d"
    and p5: "\<forall>d\<in>set Q. d \<noteq> c \<longrightarrow> d \<in> set Q'"
    by blast
  have i1: "wave_le w' w0" using le le0 by (rule wave_le_trans)
  have i2: "\<forall>d\<in>set Q'. d \<in> set Q0 \<or> cell_of w' d \<noteq> cell_of w0 d"
  proof
    fix d assume "d \<in> set Q'"
    with p4 have "d \<in> set Q \<or> cell_of w' d \<noteq> cell_of w d" by blast
    with pend have "d \<in> set Q0 \<or> cell_of w d \<noteq> cell_of w0 d \<or> cell_of w' d \<noteq> cell_of w d" by blast
    with changed_persists[OF le le0, of d] show "d \<in> set Q0 \<or> cell_of w' d \<noteq> cell_of w0 d" by blast
  qed
  have i3: "closed_at A w' d"
    if act: "d \<in> set Q0 \<or> cell_of w' d \<noteq> cell_of w0 d" and notin: "d \<notin> set Q'" for d
  proof (cases "d = c")
    case True
    with cc show ?thesis by simp
  next
    case False
    with p5 notin have dq: "d \<notin> set Q" by blast
    from p3 notin have same: "cell_of w' d = cell_of w d" by blast
    with act have "d \<in> set Q0 \<or> cell_of w d \<noteq> cell_of w0 d" by simp
    with closed dq have "closed_at A w d" by blast
    with le same show ?thesis by (rule closed_at_shrink)
  qed
  show ?thesis unfolding run_inv_def using i1 i2 i3 by simp
qed

lemma run_inv_run:
  assumes ok: "adj_ok A" "wave_ok (length A) w0"
    and run: "(sweep_step A)\<^sup>*\<^sup>* (Q0, w0) s"
  shows "run_inv A Q0 w0 s"
  using run
proof (induction rule: rtranclp_induct)
  case base
  show ?case by (rule run_inv_init)
next
  case (step s t)
  obtain Q w where s: "s = (Q, w)" by (cases s)
  obtain Q' w' where t: "t = (Q', w')" by (cases t)
  from run_inv_step[OF ok step.IH[unfolded s] step.hyps(2)[unfolded s t]] t show ?case by simp
qed

lemma run_above_closed:
  assumes ok: "adj_ok A" "wave_ok (length A) w0"
    and v: "wave_le v w0"
      "\<forall>d. (d \<in> set Q0 \<or> cell_of v d \<noteq> cell_of w0 d) \<longrightarrow> closed_at A v d"
    and run: "(sweep_step A)\<^sup>*\<^sup>* (Q0, w0) s"
  shows "wave_le v (snd s)"
  using run
proof (induction rule: rtranclp_induct)
  case base
  show ?case using v(1) by simp
next
  case (step s t)
  obtain Q w where s: "s = (Q, w)" by (cases s)
  obtain Q' w' where t: "t = (Q', w')" by (cases t)
  from run_inv_run[OF ok step.hyps(1)] s have le0: "wave_le w w0"
    and pend: "\<forall>d\<in>set Q. d \<in> set Q0 \<or> cell_of w d \<noteq> cell_of w0 d"
    by (simp_all add: run_inv_def)
  from step.IH s have vw: "wave_le v w" by simp
  from sweep_step_facts[OF ok(1) wave_ok_le[OF ok(2) le0] step.hyps(2)[unfolded s t]]
  obtain c where c: "c \<in> set Q"
    and lb: "\<forall>v. wave_le v w \<longrightarrow> closed_at A v c \<longrightarrow> wave_le v w'"
    by blast
  from pend c have "c \<in> set Q0 \<or> cell_of w c \<noteq> cell_of w0 c" by blast
  then have "c \<in> set Q0 \<or> cell_of v c \<noteq> cell_of w0 c"
    using changed_persists[OF vw le0, of c] by blast
  with v(2) have "closed_at A v c" by blast
  with lb vw t show ?case by simp
qed

lemma sweep_confluent:
  assumes ok: "adj_ok A" "wave_ok (length A) w0"
    and r1: "(sweep_step A)\<^sup>*\<^sup>* (Q0, w0) ([], w1)"
    and r2: "(sweep_step A)\<^sup>*\<^sup>* (Q0, w0) ([], w2)"
  shows "w1 = w2"
proof -
  have final: "wave_le w w0 \<and> (\<forall>d. (d \<in> set Q0 \<or> cell_of w d \<noteq> cell_of w0 d) \<longrightarrow> closed_at A w d)"
    if "(sweep_step A)\<^sup>*\<^sup>* (Q0, w0) ([], w)" for w
    using run_inv_run[OF ok that] by (simp add: run_inv_def)
  from final[OF r1] run_above_closed[OF ok _ _ r2] have "wave_le w1 w2" by simp
  moreover from final[OF r2] run_above_closed[OF ok _ _ r1] have "wave_le w2 w1" by simp
  ultimately show ?thesis by (rule wave_le_antisym)
qed

lemma propagate_dirs_queue_append:
  "propagate_dirs A S y x ks w q =
     (case propagate_dirs A S y x ks w [] of
        Inl e \<Rightarrow> Inl e
      | Inr (b, w', enq) \<Rightarrow> Inr (b, w', q @ enq))"
proof (induction ks arbitrary: w q)
  case Nil
  show ?case by simp
next
  case (Cons k ks)
  let ?y2 = "y - fst (DIRECTIONS ! k)" and ?x2 = "x - snd (DIRECTIONS ! k)"
  show ?case
  proof (cases "out_of_bounds w ?y2 ?x2")
    case True
    show ?thesis unfolding propagate_dirs_skip[OF True] by (rule Cons.IH)
  next
    case False
    show ?thesis
    proof (cases "cellAt w ?y2 ?x2")
      case None
      then show ?thesis unfolding propagate_dirs_visit[OF False] by simp
    next
      case (Some cell2)
      show ?thesis
      proof (cases "combineAdjacent A k S (newBitmask (length A))")
        case (Inl e)
        with Some show ?thesis unfolding propagate_dirs_visit[OF False] by simp
      next
        case (Inr adjm)
        let ?new = "bitmask_AND cell2 adjm"
        have a: "propagate_dirs A S y x ks (setCell w ?y2 ?x2 ?new) (q @ [(?y2, ?x2)]) =
            (case propagate_dirs A S y x ks (setCell w ?y2 ?x2 ?new) [] of
               Inl e \<Rightarrow> Inl e | Inr (b, w', enq) \<Rightarrow> Inr (b, w', (q @ [(?y2, ?x2)]) @ enq))"
          by (rule Cons.IH)
        have b: "propagate_dirs A S y x ks (setCell w ?y2 ?x2 ?new) ([] @ [(?y2, ?x2)]) =
            (case propagate_dirs A S y x ks (setCell w ?y2 ?x2 ?new) [] of
               Inl e \<Rightarrow> Inl e | Inr (b, w', enq) \<Rightarrow> Inr (b, w', ([] @ [(?y2, ?x2)]) @ enq))"
          by (rule Cons.IH)
        show ?thesis
          unfolding propagate_dirs_visit[OF False] using Some Inr a b Cons.IH[of w q]
          by (auto split: sum.splits)
      qed
    qed
  qed
qed

lemma propagate_loop_sweeps:
  "propagate_loop A q w = Some (Inr (False, w')) \<Longrightarrow> (sweep_step A)\<^sup>*\<^sup>* (q, w) ([], w')"
proof (induction "2 * wsum mask_size w + length q" arbitrary: w q rule: less_induct)
  case less
  show ?case
  proof (cases q)
    case Nil
    with less.prems have "w' = w" by (subst (asm) propagate_loop.simps) simp
    with Nil show ?thesis by simp
  next
    case (Cons c rest)
    obtain y1 x1 where c: "c = (y1, x1)" by (cases c)
    from less.prems Cons c obtain cell1 where c1: "cellAt w y1 x1 = Some cell1"
      by (subst (asm) propagate_loop.simps) (auto split: option.splits)
    from less.prems Cons c c1 obtain w1 q1 where
      run: "propagate_dirs A (toArray cell1) y1 x1 [0..<length DIRECTIONS] w rest = Inr (False, w1, q1)"
      and loop: "propagate_loop A q1 w1 = Some (Inr (False, w'))"
      by (subst (asm) propagate_loop.simps) (auto split: sum.splits if_splits)
    from run obtain enq where
      run0: "propagate_dirs A (toArray cell1) y1 x1 [0..<length DIRECTIONS] w [] = Inr (False, w1, enq)"
      and q1: "q1 = rest @ enq"
      by (subst (asm) propagate_dirs_queue_append) (auto split: sum.splits)
    have "sweep_step A ([] @ (y1, x1) # rest, w) (q1, w1)"
      by (rule sweep_step.visit[OF c1 run0]) (simp add: q1)
    then have step: "sweep_step A (q, w) (q1, w1)" using Cons c by simp
    from propagate_dirs_measure[OF run] Cons
    have "2 * wsum mask_size w1 + length q1 < 2 * wsum mask_size w + length q" by simp
    from less.hyps[OF this loop] step show ?thesis by (rule converse_rtranclp_into_rtranclp[rotated])
  qed
qed

text \<open>Claim C10. Propagation is confluent. For well-formed adjacencies (as \<^verbatim>\<open>learn\<close>
  produces them) and a well-formed wave: two sweeps from the same wave and the same
  pending cells that take the pending cells in any order and end without a contradiction
  end in the same wave; the first-in-first-out sweep of \<^verbatim>\<open>propagate\<close> is such a sweep,
  so every other order gives the mask that \<^verbatim>\<open>propagate\<close> gives, in every cell.\<close>

theorem propagation_confluent:
  assumes "adj_ok A" "wave_ok (length A) w0"
  shows "((sweep_step A)\<^sup>*\<^sup>* (pending, w0) ([], w1) \<longrightarrow> (sweep_step A)\<^sup>*\<^sup>* (pending, w0) ([], w2)
            \<longrightarrow> w1 = w2)
     \<and> (propagate_loop A pending w0 = Some (Inr (False, w1))
            \<longrightarrow> (sweep_step A)\<^sup>*\<^sup>* (pending, w0) ([], w1))
     \<and> (propagate y x A w0 = Some (Inr (False, w1)) \<longrightarrow> (sweep_step A)\<^sup>*\<^sup>* ([(y, x)], w0) ([], w2)
            \<longrightarrow> w2 = w1)"
proof (intro conjI impI)
  assume "(sweep_step A)\<^sup>*\<^sup>* (pending, w0) ([], w1)" "(sweep_step A)\<^sup>*\<^sup>* (pending, w0) ([], w2)"
  with assms show "w1 = w2" by (rule sweep_confluent)
next
  assume "propagate_loop A pending w0 = Some (Inr (False, w1))"
  then show "(sweep_step A)\<^sup>*\<^sup>* (pending, w0) ([], w1)" by (rule propagate_loop_sweeps)
next
  assume "propagate y x A w0 = Some (Inr (False, w1))"
  then have "(sweep_step A)\<^sup>*\<^sup>* ([(y, x)], w0) ([], w1)"
    unfolding propagate_def by (rule propagate_loop_sweeps)
  moreover assume "(sweep_step A)\<^sup>*\<^sup>* ([(y, x)], w0) ([], w2)"
  ultimately show "w2 = w1" using sweep_confluent[OF assms] by blast
qed

theorem propagation_confluent_witness:
  "adj_ok [[[False, False], [False, False], [False, True], [False, True]],
           [[False, False], [False, False], [True, False], [True, False]]]
   \<and> wave_ok 2 [[[True, False], [True, True]]]
   \<and> propagate 0 0
        [[[False, False], [False, False], [False, True], [False, True]],
         [[False, False], [False, False], [True, False], [True, False]]]
        [[[True, False], [True, True]]] = Some (Inr (False, [[[True, False], [False, True]]]))
   \<and> (sweep_step
        [[[False, False], [False, False], [False, True], [False, True]],
         [[False, False], [False, False], [True, False], [True, False]]])\<^sup>*\<^sup>*
        ([(0, 0)], [[[True, False], [True, True]]]) ([], [[[True, False], [False, True]]])"
proof -
  let ?A = "[[[False, False], [False, False], [False, True], [False, True]],
             [[False, False], [False, False], [True, False], [True, False]]]"
  have a: "adj_ok ?A"
    unfolding adj_ok_def by (auto simp: less_Suc_eq numeral_eq_Suc)
  have l: "length ?A = 2" by simp
  have w: "wave_ok (length ?A) [[[True, False], [True, True]]]"
    unfolding wave_ok_def by simp
  from propagation_confluent[OF a w, of "[(0, 0)]" "[[[True, False], [False, True]]]"
      "[[[True, False], [False, True]]]" 0 0, THEN conjunct2, THEN conjunct1]
  have "propagate_loop ?A [(0, 0)] [[[True, False], [True, True]]]
          = Some (Inr (False, [[[True, False], [False, True]]]))
        \<longrightarrow> (sweep_step ?A)\<^sup>*\<^sup>* ([(0, 0)], [[[True, False], [True, True]]]) ([], [[[True, False], [False, True]]])"
    .
  with stripe_propagate[unfolded propagate_def]
  have "(sweep_step ?A)\<^sup>*\<^sup>* ([(0, 0)], [[[True, False], [True, True]]]) ([], [[[True, False], [False, True]]])"
    by blast
  with a w[unfolded l] stripe_propagate show ?thesis by (intro conjI)
qed

lemma learned_adj_ok:
  assumes "learn images N = Inr m"
  shows "adj_ok (model_adjacencies m) \<and> length (model_adjacencies m) = length (model_patterns m)"
proof -
  from getAdjacencies_inv[OF learn_adjacencies[OF assms]]
  have "adj_shape (length (model_patterns m)) (model_adjacencies m)" by simp
  then show ?thesis by (auto simp: adj_shape_def adj_ok_def)
qed

lemma initial_wave_ok: "wave_ok P (initializeWaveMatrix P width height)"
  by (auto simp: initializeWaveMatrix_eq wave_ok_def)

lemma observe_wave_ok:
  assumes "observe y x weights r w = Inr w1" "wave_ok P w"
  shows "wave_ok P w1"
proof -
  from observe_InrD[OF assms(1)] obtain cell p where c: "cellAt w y x = Some cell"
    and p: "p \<in> set (toArray cell)" and w1: "w1 = setCell w y x (setBit (clear cell) p)" by blast
  from p have pl: "p < length cell" by (simp add: set_toArray)
  have "mask_le (setBit (clear cell) p) cell"
    using pl p by (auto simp: mask_le_def setBit_def clear_def nth_list_update set_toArray)
  from wave_ok_le[OF assms(2) wave_le_setCell[OF c this]] w1 show ?thesis by simp
qed

end
